theory Spec2Isabelle
  imports Complex_Main "HOL-Library.Word" "HOL-Library.Sublist"
begin

unbundle bit_operations_syntax

section \<open>Data model\<close>

text \<open>
  A Node.js \<open>Buffer\<close> is a list of bytes. A JavaScript string is a list of UTF-16 code
  units, so \<open>str.length\<close> is \<open>length\<close> and \<open>str.charCodeAt(i)\<close> is the i-th unit.
\<close>

type_synonym byte = "8 word"
type_synonym buffer = "byte list"
type_synonym js_string = "nat list"

text \<open>Exceptions the code can meet, as values.\<close>

datatype exn = RangeError | SyntaxError | OtherError

subsection \<open>JavaScript 32-bit integer operators\<close>

text \<open>
  The operators \<open>|\<close>, \<open>&\<close> and \<open><<\<close> of JavaScript convert their operands with ToInt32,
  work on 32 bits and give a signed 32-bit result; \<open><<\<close> uses only the low five bits
  of the shift count.
\<close>

definition ToInt32 :: "int \<Rightarrow> 32 word" where
  "ToInt32 x = word_of_int x"

definition js_or :: "int \<Rightarrow> int \<Rightarrow> int" where
  "js_or a b = sint (ToInt32 a OR ToInt32 b)"

definition js_and :: "int \<Rightarrow> int \<Rightarrow> int" where
  "js_and a b = sint (ToInt32 a AND ToInt32 b)"

definition js_shl :: "int \<Rightarrow> nat \<Rightarrow> int" where
  "js_shl a s = sint (push_bit (s mod 32) (ToInt32 a))"

section \<open>KeyCodec: parseIndexedDbKey\<close>

subsection \<open>The varint loop\<close>

text \<open>
  One of the three identical loops of \<open>parseIndexedDbKey\<close>:
  \<^verbatim>\<open>
  while (offset < keyBuffer.length) {
      const byte = keyBuffer[offset++];
      id |= (byte & 0x7F) << shift;
      if ((byte & 0x80) === 0) break;
      shift += 7;
  }
  \<close>
  The state is \<open>(offset, id, shift)\<close>; the result is the id and the offset after the loop.
\<close>

function read_varint :: "buffer \<Rightarrow> nat \<Rightarrow> int \<Rightarrow> nat \<Rightarrow> int \<times> nat" where
  "read_varint keyBuffer offset acc shift =
     (if offset < length keyBuffer then
        (let byte = uint (keyBuffer ! offset);
             offset' = offset + 1;
             acc' = js_or acc (js_shl (js_and byte 0x7F) shift)
         in if js_and byte 0x80 = 0 then (acc', offset')
            else read_varint keyBuffer offset' acc' (shift + 7))
      else (acc, offset))"
  by pat_completeness auto
termination
  by (relation "measure (\<lambda>(keyBuffer, offset, acc, shift). length keyBuffer - offset)") auto

declare read_varint.simps [simp del]

text \<open>
  The same loop with two ghost components: the list of indices read from the buffer (in
  order) and whether the loop left through \<open>break\<close>, that is, whether the field was
  terminated by a byte with the high bit clear.
\<close>

function read_varint_trace ::
    "buffer \<Rightarrow> nat \<Rightarrow> int \<Rightarrow> nat \<Rightarrow> nat list \<Rightarrow> (int \<times> nat) \<times> nat list \<times> bool" where
  "read_varint_trace keyBuffer offset acc shift reads =
     (if offset < length keyBuffer then
        (let byte = uint (keyBuffer ! offset);
             offset' = offset + 1;
             acc' = js_or acc (js_shl (js_and byte 0x7F) shift)
         in if js_and byte 0x80 = 0 then ((acc', offset'), reads @ [offset], True)
            else read_varint_trace keyBuffer offset' acc' (shift + 7) (reads @ [offset]))
      else ((acc, offset), reads, False))"
  by pat_completeness auto
termination
  by (relation "measure (\<lambda>(keyBuffer, offset, acc, shift, reads). length keyBuffer - offset)") auto

declare read_varint_trace.simps [simp del]

text \<open>
  What the loop accumulates when it runs over all of the given bytes, whatever their high
  bits: the reference for the value of a field that the end of the buffer cuts short.
\<close>

fun accumulate_bytes :: "int \<Rightarrow> nat \<Rightarrow> buffer \<Rightarrow> int" where
  "accumulate_bytes acc shift [] = acc"
| "accumulate_bytes acc shift (b # bs) =
     accumulate_bytes (js_or acc (js_shl (js_and (uint b) 0x7F) shift)) (shift + 7) bs"

subsection \<open>The user key\<close>

text \<open>
  \<open>userKey\<close> is \<open>null\<close>, a string, a number or a buffer. A number is kept as the 64 bits
  of its IEEE-754 representation, which is what \<open>readDoubleBE\<close> reads.
\<close>

datatype user_key = KNull | KText js_string | KNumber "64 word" | KBytes buffer

record parsed_key =
  databaseId :: int
  objectStoreId :: int
  indexId :: int
  userKey :: user_key

text \<open>
  \<open>buf.readDoubleBE(offset)\<close> of Node.js: throws a RangeError unless eight bytes are
  available from \<open>offset\<close>; otherwise the eight bytes, most significant first.
\<close>

definition readDoubleBE :: "buffer \<Rightarrow> nat \<Rightarrow> exn + 64 word" where
  "readDoubleBE buf offset =
     (if offset + 8 \<le> length buf then Inr (word_rcat (take 8 (drop offset buf)))
      else Inl RangeError)"

subsection \<open>Buffer.toString('utf8')\<close>

text \<open>
  Node.js decodes UTF-8 without throwing: every maximal ill-formed subsequence becomes
  U+FFFD. \<open>utf8_points\<close> gives the code points, \<open>utf16_units\<close> the code units of the
  resulting string.
\<close>

definition is_cont :: "nat \<Rightarrow> bool" where
  "is_cont c \<longleftrightarrow> 0x80 \<le> c \<and> c \<le> 0xBF"

text \<open>
  The second byte of a three-byte and of a four-byte sequence has a range that depends on
  the first byte (no overlong forms, no surrogates, nothing above U+10FFFF).
\<close>

definition second_of3 :: "nat \<Rightarrow> nat \<Rightarrow> bool" where
  "second_of3 b c1 \<longleftrightarrow>
     (if b = 0xE0 then 0xA0 else 0x80) \<le> c1 \<and> c1 \<le> (if b = 0xED then 0x9F else 0xBF)"

definition second_of4 :: "nat \<Rightarrow> nat \<Rightarrow> bool" where
  "second_of4 b c1 \<longleftrightarrow>
     (if b = 0xF0 then 0x90 else 0x80) \<le> c1 \<and> c1 \<le> (if b = 0xF4 then 0x8F else 0xBF)"

definition point2 :: "nat \<Rightarrow> nat \<Rightarrow> nat" where
  "point2 b c1 = (b - 0xC0) * 64 + (c1 - 0x80)"

definition point3 :: "nat \<Rightarrow> nat \<Rightarrow> nat \<Rightarrow> nat" where
  "point3 b c1 c2 = (b - 0xE0) * 4096 + (c1 - 0x80) * 64 + (c2 - 0x80)"

definition point4 :: "nat \<Rightarrow> nat \<Rightarrow> nat \<Rightarrow> nat \<Rightarrow> nat" where
  "point4 b c1 c2 c3 = (b - 0xF0) * 262144 + (c1 - 0x80) * 4096 + (c2 - 0x80) * 64 + (c3 - 0x80)"

text \<open>
  One decoding step at a non-empty input: the code point, and how many bytes after the
  first one it consumes.
\<close>

fun utf8_step :: "nat list \<Rightarrow> nat \<times> nat" where
  "utf8_step [] = (0xFFFD, 0)"
| "utf8_step (b # bs) =
     (if b < 0x80 then (b, 0)
      else if 0xC2 \<le> b \<and> b \<le> 0xDF then
        (case bs of
           [] \<Rightarrow> (0xFFFD, 0)
         | c1 # r1 \<Rightarrow> if is_cont c1 then (point2 b c1, 1) else (0xFFFD, 0))
      else if 0xE0 \<le> b \<and> b \<le> 0xEF then
        (case bs of
           [] \<Rightarrow> (0xFFFD, 0)
         | c1 # r1 \<Rightarrow>
             if second_of3 b c1
             then (case r1 of
                     [] \<Rightarrow> (0xFFFD, 1)
                   | c2 # r2 \<Rightarrow> if is_cont c2 then (point3 b c1 c2, 2) else (0xFFFD, 1))
             else (0xFFFD, 0))
      else if 0xF0 \<le> b \<and> b \<le> 0xF4 then
        (case bs of
           [] \<Rightarrow> (0xFFFD, 0)
         | c1 # r1 \<Rightarrow>
             if second_of4 b c1
             then (case r1 of
                     [] \<Rightarrow> (0xFFFD, 1)
                   | c2 # r2 \<Rightarrow>
                       if is_cont c2
                       then (case r2 of
                               [] \<Rightarrow> (0xFFFD, 2)
                             | c3 # r3 \<Rightarrow>
                                 if is_cont c3 then (point4 b c1 c2 c3, 3) else (0xFFFD, 2))
                       else (0xFFFD, 1))
             else (0xFFFD, 0))
      else (0xFFFD, 0))"

function utf8_points :: "nat list \<Rightarrow> nat list" where
  "utf8_points [] = []"
| "utf8_points (b # bs) = fst (utf8_step (b # bs)) # utf8_points (drop (snd (utf8_step (b # bs))) bs)"
  by pat_completeness auto
termination
  by (relation "measure length") auto

declare utf8_step.simps [simp del]

fun utf16_units :: "nat list \<Rightarrow> js_string" where
  "utf16_units [] = []"
| "utf16_units (p # ps) =
     (if p < 0x10000 then p # utf16_units ps
      else (0xD800 + (p - 0x10000) div 1024) # (0xDC00 + (p - 0x10000) mod 1024) # utf16_units ps)"

definition toString_utf8 :: "buffer \<Rightarrow> js_string" where
  "toString_utf8 buf = utf16_units (utf8_points (map unat buf))"

subsection \<open>parseIndexedDbKey\<close>

text \<open>
  The body of the inner \<open>try\<close>: what it assigns to \<open>userKey\<close>, or the exception it throws.
\<close>

definition decode_user_key :: "buffer \<Rightarrow> exn + user_key" where
  "decode_user_key userKeyBuffer =
     (let str = toString_utf8 userKeyBuffer
      in if length str > 0 \<and> str ! 0 \<noteq> 0 then Inr (KText str)
         else if length userKeyBuffer \<le> 8 then
           (case readDoubleBE userKeyBuffer 0 of
              Inl e \<Rightarrow> Inl e
            | Inr d \<Rightarrow> Inr (KNumber d))
         else Inr (KBytes userKeyBuffer))"

text \<open>
  The body of the outer \<open>try\<close>. Indexing, \<open>length\<close> and \<open>slice\<close> of a Buffer do not throw,
  and the inner \<open>catch\<close> turns every exception of \<open>decode_user_key\<close> into the raw buffer.
\<close>

definition parseIndexedDbKey_body :: "buffer \<Rightarrow> exn + parsed_key" where
  "parseIndexedDbKey_body keyBuffer =
     (let (databaseId, offset1) = read_varint keyBuffer 0 0 0;
          (objectStoreId, offset2) = read_varint keyBuffer offset1 0 0;
          (indexId, offset3) = read_varint keyBuffer offset2 0 0;
          userKeyBuffer = drop offset3 keyBuffer;
          userKey =
            (if length userKeyBuffer > 0 then
               (case decode_user_key userKeyBuffer of
                  Inr k \<Rightarrow> k
                | Inl e \<Rightarrow> KBytes userKeyBuffer)
             else KNull)
      in Inr \<lparr>databaseId = databaseId, objectStoreId = objectStoreId,
               indexId = indexId, userKey = userKey\<rparr>)"

text \<open>\<open>None\<close> is the \<open>null\<close> of the outer \<open>catch\<close>.\<close>

definition parseIndexedDbKey :: "buffer \<Rightarrow> parsed_key option" where
  "parseIndexedDbKey keyBuffer =
     (case parseIndexedDbKey_body keyBuffer of
        Inr r \<Rightarrow> Some r
      | Inl e \<Rightarrow> None)"

text \<open>
  Ghost definitions for stating properties of \<open>parseIndexedDbKey\<close>: the indices its three
  loops read and which of them left through \<open>break\<close>; the offsets after each loop; and
  the buffer \<open>keyBuffer.slice(offset)\<close> that remains for the user key.
\<close>

definition parseIndexedDbKey_trace :: "buffer \<Rightarrow> nat list \<times> bool \<times> bool \<times> bool" where
  "parseIndexedDbKey_trace keyBuffer =
     (let ((databaseId, offset1), reads1, done1) = read_varint_trace keyBuffer 0 0 0 [];
          ((objectStoreId, offset2), reads2, done2) = read_varint_trace keyBuffer offset1 0 0 reads1;
          ((indexId, offset3), reads3, done3) = read_varint_trace keyBuffer offset2 0 0 reads2
      in (reads3, done1, done2, done3))"

definition field_offsets :: "buffer \<Rightarrow> nat \<times> nat \<times> nat" where
  "field_offsets keyBuffer =
     (let (databaseId, offset1) = read_varint keyBuffer 0 0 0;
          (objectStoreId, offset2) = read_varint keyBuffer offset1 0 0;
          (indexId, offset3) = read_varint keyBuffer offset2 0 0
      in (offset1, offset2, offset3))"

definition userKeyBuffer_of :: "buffer \<Rightarrow> buffer" where
  "userKeyBuffer_of keyBuffer = (case field_offsets keyBuffer of (offset1, offset2, offset3) \<Rightarrow> drop offset3 keyBuffer)"

text \<open>Whether the loop started at \<open>offset\<close> leaves through \<open>break\<close>.\<close>

definition field_done :: "buffer \<Rightarrow> nat \<Rightarrow> bool" where
  "field_done keyBuffer offset = snd (snd (read_varint_trace keyBuffer offset 0 0 []))"

subsection \<open>The varint encoding of the specification\<close>

text \<open>
  The source only decodes. The encoder follows the words of the specification: seven
  bits per byte, least significant group first, the high bit set on every byte of a
  field but the last. \<open>spec_encode_fields\<close> concatenates the fields of a key.
\<close>

function spec_encode_varint :: "nat \<Rightarrow> buffer" where
  "spec_encode_varint n =
     (if n < 128 then [of_nat n]
      else of_nat (n mod 128 + 128) # spec_encode_varint (n div 128))"
  by pat_completeness auto
termination
  by (relation "measure id") auto

declare spec_encode_varint.simps [simp del]

definition spec_encode_fields :: "nat list \<Rightarrow> buffer" where
  "spec_encode_fields ns = concat (map spec_encode_varint ns)"

section \<open>ValueCodec: decodeIndexedDbValue and the fallback of its caller\<close>

text \<open>
  A decoded value is either what \<open>JSON.parse\<close> returned or the value buffer itself
  (\<open>Buffer.isBuffer(decodedValue)\<close> tells them apart). \<open>JSON.parse\<close> belongs to the
  runtime, so it is a parameter \<open>JSON_parse\<close> that returns the parsed value or the
  exception it throws; \<open>'j\<close> is the type of parsed values.
\<close>

datatype 'j decoded_value = Structured 'j | Opaque buffer

definition startsWith :: "js_string \<Rightarrow> js_string \<Rightarrow> bool" where
  "startsWith str searchString \<longleftrightarrow> take (length searchString) str = searchString"

text \<open>The code units of \<open>{\<close>, \<open>}\<close>, \<open>[\<close> and \<open>]\<close>.\<close>

definition LBRACE :: nat where "LBRACE = 0x7B"
definition RBRACE :: nat where "RBRACE = 0x7D"
definition LBRACKET :: nat where "LBRACKET = 0x5B"
definition RBRACKET :: nat where "RBRACKET = 0x5D"

text \<open>The body of the outer \<open>try\<close> of \<open>decodeIndexedDbValue\<close>, and the function.\<close>

definition decodeIndexedDbValue_body ::
    "(js_string \<Rightarrow> exn + 'j) \<Rightarrow> buffer \<Rightarrow> exn + 'j decoded_value" where
  "decodeIndexedDbValue_body JSON_parse valueBuffer =
     (let str = toString_utf8 valueBuffer
      in if startsWith str [LBRACE] \<or> startsWith str [LBRACKET] then
           (case JSON_parse str of
              Inr v \<Rightarrow> Inr (Structured v)
            | Inl e \<Rightarrow> Inr (Opaque valueBuffer))
         else Inr (Opaque valueBuffer))"

definition decodeIndexedDbValue ::
    "(js_string \<Rightarrow> exn + 'j) \<Rightarrow> buffer \<Rightarrow> 'j decoded_value" where
  "decodeIndexedDbValue JSON_parse valueBuffer =
     (case decodeIndexedDbValue_body JSON_parse valueBuffer of
        Inr d \<Rightarrow> d
      | Inl e \<Rightarrow> Opaque valueBuffer)"

subsection \<open>The regular expression of the fallback\<close>

text \<open>
  \<open>str.match(/\{.*\}|\[.*\]/)\<close>: the regular expression has no flags, so \<open>.\<close> matches
  any code unit except the line terminators, \<open>.*\<close> is greedy, and the match is the one
  at the leftmost position where an alternative succeeds. At a position holding \<open>{\<close>
  the first alternative succeeds iff a \<open>}\<close> follows before the next line terminator, and
  then the match extends to the last such \<open>}\<close>; likewise for \<open>[\<close> and \<open>]\<close>.
\<close>

definition is_line_terminator :: "nat \<Rightarrow> bool" where
  "is_line_terminator u \<longleftrightarrow> u = 0x0A \<or> u = 0x0D \<or> u = 0x2028 \<or> u = 0x2029"

text \<open>
  \<open>dot_star_then c rest\<close>: the longest string matched by \<open>.*\<close> followed by the unit \<open>c\<close>
  at the front of \<open>rest\<close>, if there is one.
\<close>

definition dot_star_then :: "nat \<Rightarrow> js_string \<Rightarrow> js_string option" where
  "dot_star_then c rest =
     (let line = takeWhile (\<lambda>u. \<not> is_line_terminator u) rest;
          upto = rev (dropWhile (\<lambda>u. u \<noteq> c) (rev line))
      in if upto = [] then None else Some upto)"

fun match_here :: "js_string \<Rightarrow> js_string option" where
  "match_here [] = None"
| "match_here (u # rest) =
     (if u = LBRACE then map_option ((#) u) (dot_star_then RBRACE rest)
      else if u = LBRACKET then map_option ((#) u) (dot_star_then RBRACKET rest)
      else None)"

fun regex_match :: "js_string \<Rightarrow> js_string option" where
  "regex_match [] = None"
| "regex_match (u # rest) =
     (case match_here (u # rest) of
        Some m \<Rightarrow> Some m
      | None \<Rightarrow> regex_match rest)"

text \<open>
  For stating what the regular expression selects: a string is bracketed when it is
  \<open>{\<close>...\<open>}\<close> or \<open>[\<close>...\<open>]\<close> on one line, that is, it has at least two code units, starts
  with an opening bracket, ends with the closing bracket of the same kind and contains no
  line terminator.
\<close>

definition bracketed :: "js_string \<Rightarrow> bool" where
  "bracketed m \<longleftrightarrow>
     2 \<le> length m \<and>
     ((hd m = LBRACE \<and> last m = RBRACE) \<or> (hd m = LBRACKET \<and> last m = RBRACKET)) \<and>
     (\<forall>u \<in> set m. \<not> is_line_terminator u)"

text \<open>
  The fallback in \<open>syncEdgeIndexedDb\<close>, applied to the result of \<open>decodeIndexedDbValue\<close>:
  \<^verbatim>\<open>
  if (Buffer.isBuffer(decodedValue)) {
      try {
          const str = decodedValue.toString('utf8');
          const jsonMatch = str.match(/\{.*\}|\[.*\]/);
          if (jsonMatch) { decodedValue = JSON.parse(jsonMatch[0]); }
      } catch (e) { }
  }
  \<close>
\<close>

definition extract_json ::
    "(js_string \<Rightarrow> exn + 'j) \<Rightarrow> 'j decoded_value \<Rightarrow> 'j decoded_value" where
  "extract_json JSON_parse decodedValue =
     (case decodedValue of
        Structured v \<Rightarrow> Structured v
      | Opaque buf \<Rightarrow>
          (case regex_match (toString_utf8 buf) of
             None \<Rightarrow> Opaque buf
           | Some m \<Rightarrow>
               (case JSON_parse m of
                  Inr v \<Rightarrow> Structured v
                | Inl e \<Rightarrow> Opaque buf)))"

definition decode_value :: "(js_string \<Rightarrow> exn + 'j) \<Rightarrow> buffer \<Rightarrow> 'j decoded_value" where
  "decode_value JSON_parse valueBuffer =
     extract_json JSON_parse (decodeIndexedDbValue JSON_parse valueBuffer)"

section \<open>SchemaMap: getObjectStoreName\<close>

text \<open>
  \<open>mapping[objectStoreId] || null\<close> on the object literal with the keys 1 to 7: every
  other number finds no property, and \<open>undefined || null\<close> is \<open>null\<close> (\<open>None\<close>).
\<close>

definition mapping :: "(int \<times> string) list" where
  "mapping = [(1, ''dictionaries''), (2, ''terms''), (3, ''kanji''), (4, ''termMeta''),
              (5, ''kanjiMeta''), (6, ''tagMeta''), (7, ''media'')]"

definition getObjectStoreName :: "int \<Rightarrow> string option" where
  "getObjectStoreName storeId = map_of mapping storeId"

section \<open>A reference JSON.parse\<close>

text \<open>
  The general properties below hold for every \<open>JSON_parse\<close>. To evaluate the code on
  concrete values, \<open>JSON_parse_ref\<close> follows the JSON grammar of ECMA-404, which
  \<open>JSON.parse\<close> accepts strictly: a single value between optional white space, and a
  SyntaxError otherwise. A number is kept as the exact rational its literal denotes
  (the runtime rounds it to a double), an object as the list of its members in source
  order.
\<close>

datatype json =
    JNull
  | JBool bool
  | JNumber rat
  | JString js_string
  | JArray "json list"
  | JObject "(js_string \<times> json) list"

definition is_ws :: "nat \<Rightarrow> bool" where
  "is_ws u \<longleftrightarrow> u = 0x20 \<or> u = 0x09 \<or> u = 0x0A \<or> u = 0x0D"

definition skip_ws :: "js_string \<Rightarrow> js_string" where
  "skip_ws s = dropWhile is_ws s"

definition is_digit :: "nat \<Rightarrow> bool" where
  "is_digit u \<longleftrightarrow> 0x30 \<le> u \<and> u \<le> 0x39"

definition hex_value :: "nat \<Rightarrow> nat option" where
  "hex_value u =
     (if 0x30 \<le> u \<and> u \<le> 0x39 then Some (u - 0x30)
      else if 0x41 \<le> u \<and> u \<le> 0x46 then Some (u - 0x41 + 10)
      else if 0x61 \<le> u \<and> u \<le> 0x66 then Some (u - 0x61 + 10)
      else None)"

definition digits_value :: "js_string \<Rightarrow> nat" where
  "digits_value ds = foldl (\<lambda>n d. 10 * n + (d - 0x30)) 0 ds"

text \<open>The characters of a string after its opening quote; \<open>acc\<close> is reversed.\<close>

fun parse_string_body :: "js_string \<Rightarrow> js_string \<Rightarrow> (js_string \<times> js_string) option" where
  "parse_string_body [] acc = None"
| "parse_string_body [u] acc = (if u = 0x22 then Some (rev acc, []) else None)"
| "parse_string_body (u # e # rest) acc =
     (if u = 0x22 then Some (rev acc, e # rest)
      else if u = 0x5C then
        (if e = 0x22 \<or> e = 0x5C \<or> e = 0x2F then parse_string_body rest (e # acc)
         else if e = 0x62 then parse_string_body rest (0x08 # acc)
         else if e = 0x66 then parse_string_body rest (0x0C # acc)
         else if e = 0x6E then parse_string_body rest (0x0A # acc)
         else if e = 0x72 then parse_string_body rest (0x0D # acc)
         else if e = 0x74 then parse_string_body rest (0x09 # acc)
         else if e = 0x75 then
           (case map hex_value (take 4 rest) of
              [Some a, Some b, Some c, Some d] \<Rightarrow>
                parse_string_body (drop 4 rest) ((a * 4096 + b * 256 + c * 16 + d) # acc)
            | _ \<Rightarrow> None)
         else None)
      else if u < 0x20 then None
      else parse_string_body (e # rest) (u # acc))"

text \<open>A number token at the front of the input: its value and the rest.\<close>

definition parse_int_part :: "js_string \<Rightarrow> (nat \<times> js_string) option" where
  "parse_int_part s =
     (case s of
        [] \<Rightarrow> None
      | d # rest \<Rightarrow>
          if d = 0x30 then Some (0, rest)
          else if is_digit d then
            Some (digits_value (takeWhile is_digit s), dropWhile is_digit s)
          else None)"

definition parse_frac_part :: "js_string \<Rightarrow> (rat \<times> js_string) option" where
  "parse_frac_part s =
     (case s of
        [] \<Rightarrow> Some (0, s)
      | p # rest \<Rightarrow>
          if p = 0x2E then
            (let ds = takeWhile is_digit rest
             in if ds = [] then None
                else Some (of_nat (digits_value ds) / of_nat (10 ^ length ds),
                           dropWhile is_digit rest))
          else Some (0, s))"

definition parse_exp_part :: "js_string \<Rightarrow> (int \<times> js_string) option" where
  "parse_exp_part s =
     (case s of
        [] \<Rightarrow> Some (0, s)
      | e # rest \<Rightarrow>
          if e = 0x65 \<or> e = 0x45 then
            (let (neg, rest') =
                   (case rest of
                      [] \<Rightarrow> (False, rest)
                    | sg # r \<Rightarrow>
                        if sg = 0x2D then (True, r)
                        else if sg = 0x2B then (False, r)
                        else (False, rest));
                 ds = takeWhile is_digit rest'
             in if ds = [] then None
                else Some (if neg then - int (digits_value ds) else int (digits_value ds),
                           dropWhile is_digit rest'))
          else Some (0, s))"

definition parse_number :: "js_string \<Rightarrow> (rat \<times> js_string) option" where
  "parse_number s =
     (let (neg, s1) = (case s of [] \<Rightarrow> (False, s) | m # r \<Rightarrow> if m = 0x2D then (True, r) else (False, s))
      in case parse_int_part s1 of
           None \<Rightarrow> None
         | Some (n, s2) \<Rightarrow>
             (case parse_frac_part s2 of
                None \<Rightarrow> None
              | Some (f, s3) \<Rightarrow>
                  (case parse_exp_part s3 of
                     None \<Rightarrow> None
                   | Some (e, s4) \<Rightarrow>
                       (let mag = (of_nat n + f) * (if 0 \<le> e then 10 ^ nat e else 1 / 10 ^ nat (- e))
                        in Some (if neg then - mag else mag, s4)))))"

text \<open>
  Values, array elements and object members, by recursive descent. Each call spends one
  unit of \<open>fuel\<close>; \<open>JSON_parse_ref\<close> gives as much fuel as the text has code units plus
  one, and every call that recurses has consumed a code unit before.
\<close>

fun parse_value :: "nat \<Rightarrow> js_string \<Rightarrow> (json \<times> js_string) option"
  and parse_elements :: "nat \<Rightarrow> js_string \<Rightarrow> json list \<Rightarrow> (json \<times> js_string) option"
  and parse_members :: "nat \<Rightarrow> js_string \<Rightarrow> (js_string \<times> json) list \<Rightarrow> (json \<times> js_string) option"
where
  "parse_value 0 s = None"
| "parse_value (Suc fuel) s =
     (case skip_ws s of
        [] \<Rightarrow> None
      | u # rest \<Rightarrow>
          if u = LBRACE then
            (case skip_ws rest of
               [] \<Rightarrow> None
             | c # rest' \<Rightarrow> if c = RBRACE then Some (JObject [], rest')
                            else parse_members fuel (c # rest') [])
          else if u = LBRACKET then
            (case skip_ws rest of
               [] \<Rightarrow> None
             | c # rest' \<Rightarrow> if c = RBRACKET then Some (JArray [], rest')
                            else parse_elements fuel (c # rest') [])
          else if u = 0x22 then
            map_option (\<lambda>(str, r). (JString str, r)) (parse_string_body rest [])
          else if take 4 (u # rest) = [0x74, 0x72, 0x75, 0x65] then Some (JBool True, drop 4 (u # rest))
          else if take 5 (u # rest) = [0x66, 0x61, 0x6C, 0x73, 0x65] then Some (JBool False, drop 5 (u # rest))
          else if take 4 (u # rest) = [0x6E, 0x75, 0x6C, 0x6C] then Some (JNull, drop 4 (u # rest))
          else map_option (\<lambda>(q, r). (JNumber q, r)) (parse_number (u # rest)))"
| "parse_elements 0 s acc = None"
| "parse_elements (Suc fuel) s acc =
     (case parse_value fuel s of
        None \<Rightarrow> None
      | Some (v, r) \<Rightarrow>
          (case skip_ws r of
             [] \<Rightarrow> None
           | c # r' \<Rightarrow>
               if c = RBRACKET then Some (JArray (acc @ [v]), r')
               else if c = 0x2C then parse_elements fuel r' (acc @ [v])
               else None))"
| "parse_members 0 s acc = None"
| "parse_members (Suc fuel) s acc =
     (case skip_ws s of
        [] \<Rightarrow> None
      | q # r0 \<Rightarrow>
          if q \<noteq> 0x22 then None
          else
            (case parse_string_body r0 [] of
               None \<Rightarrow> None
             | Some (k, r1) \<Rightarrow>
                 (case skip_ws r1 of
                    [] \<Rightarrow> None
                  | colon # r2 \<Rightarrow>
                      if colon \<noteq> 0x3A then None
                      else
                        (case parse_value fuel r2 of
                           None \<Rightarrow> None
                         | Some (v, r3) \<Rightarrow>
                             (case skip_ws r3 of
                                [] \<Rightarrow> None
                              | c # r4 \<Rightarrow>
                                  if c = RBRACE then Some (JObject (acc @ [(k, v)]), r4)
                                  else if c = 0x2C then parse_members fuel r4 (acc @ [(k, v)])
                                  else None)))))"

definition JSON_parse_ref :: "js_string \<Rightarrow> exn + json" where
  "JSON_parse_ref text =
     (case parse_value (length text + 1) text of
        None \<Rightarrow> Inl SyntaxError
      | Some (v, rest) \<Rightarrow> if skip_ws rest = [] then Inr v else Inl SyntaxError)"

section \<open>Migrator: syncEdgeIndexedDb\<close>

subsection \<open>Scanning the source\<close>

text \<open>
  An element of a per-store buffer is \<open>{key: parsed.userKey, value: decodedValue}\<close>. The
  scan keeps the counters \<open>totalEntries\<close> and \<open>parsedEntries\<close> and the object
  \<open>entriesByStore\<close>, whose keys are the seven store names in the order of \<open>objectStores\<close>.
  Console output is not part of the model, nor is \<open>sampleKeys\<close>, which is only printed.
\<close>

record 'j entry =
  entry_key :: user_key
  entry_value :: "'j decoded_value"

record 'j scan_state =
  totalEntries :: nat
  parsedEntries :: nat
  entriesByStore :: "(string \<times> 'j entry list) list"

definition objectStores :: "string list" where
  "objectStores = [''dictionaries'', ''terms'', ''kanji'', ''termMeta'', ''kanjiMeta'',
                   ''tagMeta'', ''media'']"

definition initial_scan :: "'j scan_state" where
  "initial_scan =
     \<lparr>totalEntries = 0, parsedEntries = 0, entriesByStore = map (\<lambda>storeName. (storeName, [])) objectStores\<rparr>"

text \<open>\<open>entriesByStore[storeName].push(e)\<close>.\<close>

definition push_entry ::
    "string \<Rightarrow> 'j entry \<Rightarrow> (string \<times> 'j entry list) list \<Rightarrow> (string \<times> 'j entry list) list" where
  "push_entry storeName e ebs =
     map (\<lambda>(name, entries). if name = storeName then (name, entries @ [e]) else (name, entries)) ebs"

text \<open>
  One iteration of \<open>for await (const [key, value] of iterator)\<close>, with key and value
  already converted to buffers. In the branch \<open>else if (parsed.objectStoreId)\<close> and in the
  branch for a \<open>null\<close> result of \<open>parseIndexedDbKey\<close> the code only writes to the console.
\<close>

definition scan_entry ::
    "(js_string \<Rightarrow> exn + 'j) \<Rightarrow> 'j scan_state \<Rightarrow> buffer \<times> buffer \<Rightarrow> 'j scan_state" where
  "scan_entry JSON_parse st kv =
     (let keyBuffer = fst kv; valueBuffer = snd kv;
          st1 = st\<lparr>totalEntries := totalEntries st + 1\<rparr>
      in case parseIndexedDbKey keyBuffer of
           None \<Rightarrow> st1
         | Some parsed \<Rightarrow>
             (case getObjectStoreName (objectStoreId parsed) of
                None \<Rightarrow> st1
              | Some storeName \<Rightarrow>
                  (case map_of (entriesByStore st1) storeName of
                     None \<Rightarrow> st1
                   | Some entries \<Rightarrow>
                       st1\<lparr>entriesByStore :=
                              push_entry storeName
                                \<lparr>entry_key = userKey parsed,
                                 entry_value = decode_value JSON_parse valueBuffer\<rparr>
                                (entriesByStore st1),
                            parsedEntries := parsedEntries st1 + 1\<rparr>)))"

definition scan_source ::
    "(js_string \<Rightarrow> exn + 'j) \<Rightarrow> (buffer \<times> buffer) list \<Rightarrow> 'j scan_state" where
  "scan_source JSON_parse source = foldl (scan_entry JSON_parse) initial_scan source"

text \<open>
  An entry is unmapped when its key decodes to a store id that \<open>getObjectStoreName\<close> does
  not know; \<open>unmapped_count\<close> is the number of such entries of a source.
\<close>

definition unmapped :: "buffer \<times> buffer \<Rightarrow> bool" where
  "unmapped kv =
     (case parseIndexedDbKey (fst kv) of
        None \<Rightarrow> False
      | Some parsed \<Rightarrow> getObjectStoreName (objectStoreId parsed) = None)"

definition unmapped_count :: "(buffer \<times> buffer) list \<Rightarrow> nat" where
  "unmapped_count src = length (filter unmapped src)"

subsection \<open>Writing to the target\<close>

text \<open>
  \<open>store.put(entry.value, entry.key)\<close> when the key is neither \<open>null\<close> nor \<open>undefined\<close>,
  \<open>store.add(entry.value)\<close> otherwise.
\<close>

datatype 'j write_op = Put "'j decoded_value" user_key | Add "'j decoded_value"

definition write_op_of :: "'j entry \<Rightarrow> 'j write_op" where
  "write_op_of e = (if entry_key e \<noteq> KNull then Put (entry_value e) (entry_key e)
                    else Add (entry_value e))"

text \<open>
  What happens at the target, in order: a transaction is opened on a store or opening it
  throws; a \<open>put\<close>/\<open>add\<close> returns or throws; the completion of the transaction is
  awaited; the database handle is closed.
\<close>

datatype 'j event =
    TxOpened string
  | TxOpenThrew string
  | Wrote string "'j write_op"
  | WriteThrew string "'j write_op"
  | TxAwaited string
  | IdbClosed

text \<open>
  The awaited promise resolves on \<open>oncomplete\<close> and rejects on \<open>onerror\<close> with the value
  that \<open>transaction.error\<close> has at that moment; when neither event fires it stays
  pending. A \<open>put\<close>/\<open>add\<close> that returns and whose request fails afterwards is seen
  here and nowhere else: the error event of the request reaches \<open>onerror\<close> before the
  transaction is aborted, and \<open>transaction.error\<close> is \<open>null\<close> until the abort, which is
  \<open>TxError None\<close>. \<open>TxError (Some e)\<close> is an error event that finds \<open>transaction.error\<close>
  set to \<open>e\<close>.
\<close>

datatype tx_outcome = TxComplete | TxError "exn option" | TxSilent

text \<open>
  The behaviour of the target database: whether \<open>idb.transaction\<close> and \<open>objectStore\<close>
  succeed for a store, whether the i-th \<open>put\<close>/\<open>add\<close> of a store's loop throws, and how
  the store's transaction ends.
\<close>

record 'j target =
  tx_opens :: "string \<Rightarrow> bool"
  write_throws :: "string \<Rightarrow> nat \<Rightarrow> 'j write_op \<Rightarrow> bool"
  tx_outcome :: "string \<Rightarrow> tx_outcome"

text \<open>
  The loop \<open>for (const entry of entries)\<close> with its \<open>try\<close>/\<open>catch\<close>; \<open>i\<close> is the index of
  the entry in the buffer.
\<close>

fun write_entries ::
    "'j target \<Rightarrow> string \<Rightarrow> nat \<Rightarrow> 'j entry list \<Rightarrow> nat \<times> 'j event list \<Rightarrow> nat \<times> 'j event list" where
  "write_entries tgt storeName i [] (syncedCount, trace) = (syncedCount, trace)"
| "write_entries tgt storeName i (e # entries) (syncedCount, trace) =
     (if write_throws tgt storeName i (write_op_of e)
      then write_entries tgt storeName (i + 1) entries
             (syncedCount, trace @ [WriteThrew storeName (write_op_of e)])
      else write_entries tgt storeName (i + 1) entries
             (syncedCount + 1, trace @ [Wrote storeName (write_op_of e)]))"

text \<open>
  How the loop over the stores stands: it runs, it waits for ever on a promise that
  never settles, or an exception has left it.
\<close>

datatype progress = Running | Waiting | Thrown

text \<open>
  What follows the \<open>await\<close>. On a rejection the \<open>catch\<close> of the store evaluates
  \<open>error.message\<close>: for an error object the warning is written and the loop goes on
  with the next store, for \<open>null\<close> the property access throws a \<open>TypeError\<close> inside the
  \<open>catch\<close>, which leaves the loop.
\<close>

definition after_await :: "tx_outcome \<Rightarrow> progress" where
  "after_await out =
     (case out of
        TxComplete \<Rightarrow> Running
      | TxError None \<Rightarrow> Thrown
      | TxError (Some e) \<Rightarrow> Running
      | TxSilent \<Rightarrow> Waiting)"

text \<open>
  One iteration of \<open>for (const [storeName, entries] of Object.entries(entriesByStore))\<close>.
  The state is \<open>syncedCount\<close>, the events so far, and how the loop stands; once it waits
  or is left, no later store is touched. An exception of \<open>idb.transaction\<close> or
  \<open>objectStore\<close> is an error object: the \<open>catch\<close> of the store writes its warning and
  the loop goes on.
\<close>

definition sync_store ::
    "'j target \<Rightarrow> nat \<times> 'j event list \<times> progress \<Rightarrow> string \<times> 'j entry list
      \<Rightarrow> nat \<times> 'j event list \<times> progress" where
  "sync_store tgt state store =
     (case state of (syncedCount, trace, progress) \<Rightarrow>
      case store of (storeName, entries) \<Rightarrow>
        if progress \<noteq> Running then state
        else if length entries = 0 then state
        else if \<not> tx_opens tgt storeName then (syncedCount, trace @ [TxOpenThrew storeName], Running)
        else
          (case write_entries tgt storeName 0 entries (syncedCount, trace @ [TxOpened storeName]) of
             (syncedCount', trace') \<Rightarrow>
               (syncedCount', trace' @ [TxAwaited storeName], after_await (tx_outcome tgt storeName))))"

subsection \<open>The whole operation\<close>

text \<open>
  The environment of one call: what constructing \<open>EdgeStorageAccess\<close> and calling
  \<open>getIndexedDbPath\<close> give (an exception of the file system, \<open>null\<close>, or a path),
  \<open>existsSync\<close>, the import of \<open>level\<close>, whether the database opens with \<open>level\<close> or with
  \<open>classic-level\<close>, the entries the iterator yields and whether reading or closing the
  source then throws, whether \<open>indexedDB.open\<close> ends in \<open>onsuccess\<close> or in \<open>onerror\<close>, and
  the target. The test \<open>!indexedDbPath\<close> holds for \<open>null\<close> and for the empty string.
\<close>

datatype level_import = ImportThrows | NotAConstructor | LevelClass

record 'j env =
  indexedDbPath :: "exn + string option"
  existsSync :: "string \<Rightarrow> bool"
  level_module :: level_import
  level_opens :: bool
  classic_level_opens :: bool
  source :: "(buffer \<times> buffer) list"
  source_throws :: bool
  idb_opens :: bool
  idb :: "'j target"

text \<open>
  The promise the call returns: resolved with a boolean, rejected with an exception, or
  never settled; with it, the state after the scan (if the scan ended normally), the
  final \<open>syncedCount\<close> and the events at the target. An exception that leaves the loop
  over the stores is caught by the \<open>catch\<close> around the scan and the writes, which closes
  the target and resolves with \<open>false\<close>.
\<close>

datatype outcome = Resolved bool | Rejected exn | Pending

record 'j run =
  outcome :: outcome
  scanned :: "'j scan_state option"
  synced :: nat
  events :: "'j event list"

definition not_started :: "outcome \<Rightarrow> 'j run" where
  "not_started out = \<lparr>outcome = out, scanned = None, synced = 0, events = []\<rparr>"

definition syncEdgeIndexedDb :: "(js_string \<Rightarrow> exn + 'j) \<Rightarrow> 'j env \<Rightarrow> 'j run" where
  "syncEdgeIndexedDb JSON_parse env =
     (case indexedDbPath env of
        Inl e \<Rightarrow> not_started (Rejected e)
      | Inr path \<Rightarrow>
          if (case path of None \<Rightarrow> True | Some p \<Rightarrow> p = [] \<or> \<not> existsSync env p)
          then not_started (Resolved False)
          else if level_module env \<noteq> LevelClass then not_started (Resolved False)
          else if \<not> level_opens env \<and> \<not> classic_level_opens env then not_started (Resolved False)
          else if \<not> idb_opens env then not_started (Resolved False)
          else if source_throws env then
            \<lparr>outcome = Resolved False, scanned = None, synced = 0, events = [IdbClosed]\<rparr>
          else
            (let st = scan_source JSON_parse (source env)
             in case foldl (sync_store (idb env)) (0, [], Running) (entriesByStore st) of
                  (syncedCount, trace, progress) \<Rightarrow>
                    (case progress of
                       Running \<Rightarrow>
                         \<lparr>outcome = Resolved (syncedCount > 0), scanned = Some st,
                          synced = syncedCount, events = trace @ [IdbClosed]\<rparr>
                     | Waiting \<Rightarrow>
                         \<lparr>outcome = Pending, scanned = Some st, synced = syncedCount, events = trace\<rparr>
                     | Thrown \<Rightarrow>
                         \<lparr>outcome = Resolved False, scanned = Some st,
                          synced = syncedCount, events = trace @ [IdbClosed]\<rparr>)))"

section \<open>Properties of the varint loop\<close>

lemma read_varint_exhausted:
  "length keyBuffer \<le> offset \<Longrightarrow> read_varint keyBuffer offset acc shift = (acc, offset)"
  by (simp add: read_varint.simps)

lemma read_varint_trace_exhausted:
  "length keyBuffer \<le> offset \<Longrightarrow>
   read_varint_trace keyBuffer offset acc shift reads = ((acc, offset), reads, False)"
  by (simp add: read_varint_trace.simps)

lemma read_varint_trace_fst:
  "fst (read_varint_trace keyBuffer offset acc shift reads) = read_varint keyBuffer offset acc shift"
proof (induction keyBuffer offset acc shift arbitrary: reads rule: read_varint.induct)
  case (1 keyBuffer offset acc shift)
  show ?case
    using "1.IH"
    by (subst read_varint_trace.simps, subst read_varint.simps) (simp add: Let_def)
qed

lemma read_varint_offset_ge:
  "offset \<le> snd (read_varint keyBuffer offset acc shift)"
proof (induction keyBuffer offset acc shift rule: read_varint.induct)
  case (1 keyBuffer offset acc shift)
  show ?case
  proof (cases "offset < length keyBuffer \<and> js_and (uint (keyBuffer ! offset)) 0x80 \<noteq> 0")
    case True
    then have "offset + 1 \<le> snd (read_varint keyBuffer (offset + 1)
        (js_or acc (js_shl (js_and (uint (keyBuffer ! offset)) 0x7F) shift)) (shift + 7))"
      using "1.IH" by simp
    then show ?thesis using True by (subst read_varint.simps) (simp add: Let_def)
  next
    case False
    then show ?thesis by (subst read_varint.simps) (auto simp: Let_def)
  qed
qed

lemma read_varint_offset_le:
  "offset \<le> length keyBuffer \<Longrightarrow> snd (read_varint keyBuffer offset acc shift) \<le> length keyBuffer"
proof (induction keyBuffer offset acc shift rule: read_varint.induct)
  case (1 keyBuffer offset acc shift)
  show ?case
  proof (cases "offset < length keyBuffer \<and> js_and (uint (keyBuffer ! offset)) 0x80 \<noteq> 0")
    case True
    then have "snd (read_varint keyBuffer (offset + 1)
        (js_or acc (js_shl (js_and (uint (keyBuffer ! offset)) 0x7F) shift)) (shift + 7)) \<le> length keyBuffer"
      using "1.IH" by simp
    then show ?thesis using True by (subst read_varint.simps) (simp add: Let_def)
  next
    case False
    then show ?thesis using "1.prems" by (subst read_varint.simps) (auto simp: Let_def)
  qed
qed

lemma read_varint_trace_reads:
  "offset \<le> length keyBuffer \<Longrightarrow>
   fst (snd (read_varint_trace keyBuffer offset acc shift reads)) =
     reads @ [offset ..< snd (read_varint keyBuffer offset acc shift)]"
proof (induction keyBuffer offset acc shift arbitrary: reads rule: read_varint.induct)
  case (1 keyBuffer offset acc shift)
  show ?case
  proof (cases "offset < length keyBuffer \<and> js_and (uint (keyBuffer ! offset)) 0x80 \<noteq> 0")
    case True
    let ?acc = "js_or acc (js_shl (js_and (uint (keyBuffer ! offset)) 0x7F) shift)"
    have ih: "fst (snd (read_varint_trace keyBuffer (offset + 1) ?acc (shift + 7) (reads @ [offset]))) =
        (reads @ [offset]) @ [offset + 1 ..< snd (read_varint keyBuffer (offset + 1) ?acc (shift + 7))]"
      using "1.IH" True by simp
    have ge: "offset + 1 \<le> snd (read_varint keyBuffer (offset + 1) ?acc (shift + 7))"
      by (rule read_varint_offset_ge)
    have "[offset ..< snd (read_varint keyBuffer (offset + 1) ?acc (shift + 7))] =
        offset # [offset + 1 ..< snd (read_varint keyBuffer (offset + 1) ?acc (shift + 7))]"
      using ge by (simp add: upt_conv_Cons)
    then show ?thesis using True ih
      by (subst read_varint_trace.simps, subst read_varint.simps) (simp add: Let_def)
  next
    case False
    then show ?thesis using "1.prems"
      by (subst read_varint_trace.simps, subst read_varint.simps) (auto simp: Let_def)
  qed
qed

lemma read_varint_unterminated:
  "offset \<le> length keyBuffer \<Longrightarrow>
   \<not> snd (snd (read_varint_trace keyBuffer offset acc shift reads)) \<Longrightarrow>
   read_varint keyBuffer offset acc shift =
     (accumulate_bytes acc shift (drop offset keyBuffer), length keyBuffer)"
proof (induction keyBuffer offset acc shift arbitrary: reads rule: read_varint.induct)
  case (1 keyBuffer offset acc shift)
  show ?case
  proof (cases "offset < length keyBuffer")
    case True
    let ?acc = "js_or acc (js_shl (js_and (uint (keyBuffer ! offset)) 0x7F) shift)"
    have cont: "js_and (uint (keyBuffer ! offset)) 0x80 \<noteq> 0"
      using "1.prems"(2) True by (subst (asm) read_varint_trace.simps) (auto simp: Let_def)
    have nt: "\<not> snd (snd (read_varint_trace keyBuffer (offset + 1) ?acc (shift + 7) (reads @ [offset])))"
      using "1.prems"(2) True cont by (subst (asm) read_varint_trace.simps) (simp add: Let_def)
    have ih: "read_varint keyBuffer (offset + 1) ?acc (shift + 7) =
        (accumulate_bytes ?acc (shift + 7) (drop (offset + 1) keyBuffer), length keyBuffer)"
      using "1.IH"[OF True refl refl refl cont _ nt] True by simp
    have "drop offset keyBuffer = keyBuffer ! offset # drop (offset + 1) keyBuffer"
      using True by (simp add: Cons_nth_drop_Suc)
    then show ?thesis using True cont ih
      by (subst read_varint.simps) (simp add: Let_def)
  next
    case False
    then show ?thesis using "1.prems"(1) by (simp add: read_varint_exhausted)
  qed
qed

section \<open>Properties of the UTF-8 decoder\<close>

lemma point2_pos: "0xC2 \<le> b \<Longrightarrow> 0 < point2 b c1"
  by (simp add: point2_def)

lemma point3_pos: "0xE0 \<le> b \<Longrightarrow> second_of3 b c1 \<Longrightarrow> 0 < point3 b c1 c2"
  by (cases "b = 0xE0") (simp_all add: point3_def second_of3_def)

lemma point4_pos: "0xF0 \<le> b \<Longrightarrow> second_of4 b c1 \<Longrightarrow> 0 < point4 b c1 c2 c3"
  by (cases "b = 0xF0") (simp_all add: point4_def second_of4_def)

lemma utf8_step_ascii: "b < 0x80 \<Longrightarrow> utf8_step (b # bs) = (b, 0)"
  by (simp add: utf8_step.simps)

lemma utf8_step_two:
  "0xC2 \<le> b \<Longrightarrow> b \<le> 0xDF \<Longrightarrow>
   utf8_step (b # bs) =
     (case bs of [] \<Rightarrow> (0xFFFD, 0)
      | c1 # r1 \<Rightarrow> if is_cont c1 then (point2 b c1, 1) else (0xFFFD, 0))"
  by (simp add: utf8_step.simps)

lemma utf8_step_three:
  "0xE0 \<le> b \<Longrightarrow> b \<le> 0xEF \<Longrightarrow>
   utf8_step (b # bs) =
     (case bs of [] \<Rightarrow> (0xFFFD, 0)
      | c1 # r1 \<Rightarrow>
          if second_of3 b c1
          then (case r1 of [] \<Rightarrow> (0xFFFD, 1)
                | c2 # r2 \<Rightarrow> if is_cont c2 then (point3 b c1 c2, 2) else (0xFFFD, 1))
          else (0xFFFD, 0))"
  by (simp add: utf8_step.simps)

lemma utf8_step_four:
  "0xF0 \<le> b \<Longrightarrow> b \<le> 0xF4 \<Longrightarrow>
   utf8_step (b # bs) =
     (case bs of [] \<Rightarrow> (0xFFFD, 0)
      | c1 # r1 \<Rightarrow>
          if second_of4 b c1
          then (case r1 of [] \<Rightarrow> (0xFFFD, 1)
                | c2 # r2 \<Rightarrow>
                    if is_cont c2
                    then (case r2 of [] \<Rightarrow> (0xFFFD, 2)
                          | c3 # r3 \<Rightarrow> if is_cont c3 then (point4 b c1 c2 c3, 3) else (0xFFFD, 2))
                    else (0xFFFD, 1))
          else (0xFFFD, 0))"
  by (simp add: utf8_step.simps)

lemma utf8_step_bad1: "0x80 \<le> b \<Longrightarrow> b < 0xC2 \<Longrightarrow> utf8_step (b # bs) = (0xFFFD, 0)"
  by (simp add: utf8_step.simps)

lemma utf8_step_bad2: "0xF4 < b \<Longrightarrow> utf8_step (b # bs) = (0xFFFD, 0)"
  by (simp add: utf8_step.simps)

lemma utf8_step_pos:
  assumes "0x80 \<le> b"
  shows "0 < fst (utf8_step (b # bs))"
proof -
  consider (bad1) "b < 0xC2"
    | (two) "0xC2 \<le> b" "b \<le> 0xDF"
    | (three) "0xE0 \<le> b" "b \<le> 0xEF"
    | (four) "0xF0 \<le> b" "b \<le> 0xF4"
    | (bad2) "0xF4 < b"
    by linarith
  then show ?thesis
  proof cases
    case bad1
    then show ?thesis using assms by (simp add: utf8_step_bad1)
  next
    case two
    show ?thesis unfolding utf8_step_two[OF two] using point2_pos[OF two(1)]
      by (simp split: list.split)
  next
    case three
    show ?thesis unfolding utf8_step_three[OF three] using point3_pos[OF three(1)]
      by (simp split: list.split)
  next
    case four
    show ?thesis unfolding utf8_step_four[OF four] using point4_pos[OF four(1)]
      by (simp split: list.split)
  next
    case bad2
    then show ?thesis by (simp add: utf8_step_bad2)
  qed
qed

lemma utf8_step_first: "fst (utf8_step (b # bs)) = 0 \<longleftrightarrow> b = 0"
proof (cases "b < 0x80")
  case True
  then show ?thesis by (simp add: utf8_step_ascii)
next
  case False
  then show ?thesis using utf8_step_pos[of b bs] by simp
qed

lemma toString_utf8_first:
  "\<exists>u us. toString_utf8 (b # bs) = u # us \<and> (u = 0 \<longleftrightarrow> b = 0)"
proof -
  let ?p = "fst (utf8_step (unat b # map unat bs))"
  have p: "?p = 0 \<longleftrightarrow> b = 0"
    by (simp add: utf8_step_first unat_eq_0)
  obtain ps where ps: "utf8_points (map unat (b # bs)) = ?p # ps"
    by simp
  have "\<exists>u us. utf16_units (?p # ps) = u # us \<and> (u = 0 \<longleftrightarrow> ?p = 0)"
    by auto
  with p ps show ?thesis by (simp add: toString_utf8_def)
qed

section \<open>Properties of parseIndexedDbKey\<close>

lemma parseIndexedDbKey_fields:
  fixes keyBuffer :: buffer
  defines "o1 \<equiv> snd (read_varint keyBuffer 0 0 0)"
  defines "o2 \<equiv> snd (read_varint keyBuffer o1 0 0)"
  defines "o3 \<equiv> snd (read_varint keyBuffer o2 0 0)"
  shows "parseIndexedDbKey keyBuffer = Some
     \<lparr>databaseId = fst (read_varint keyBuffer 0 0 0),
      objectStoreId = fst (read_varint keyBuffer o1 0 0),
      indexId = fst (read_varint keyBuffer o2 0 0),
      userKey = (if drop o3 keyBuffer \<noteq> [] then
                   (case decode_user_key (drop o3 keyBuffer) of Inr k \<Rightarrow> k
                    | Inl e \<Rightarrow> KBytes (drop o3 keyBuffer))
                 else KNull)\<rparr>"
    and "field_offsets keyBuffer = (o1, o2, o3)"
    and "userKeyBuffer_of keyBuffer = drop o3 keyBuffer"
    and "o1 \<le> length keyBuffer" and "o1 \<le> o2" and "o2 \<le> length keyBuffer"
    and "o2 \<le> o3" and "o3 \<le> length keyBuffer"
proof -
  show "parseIndexedDbKey keyBuffer = Some
     \<lparr>databaseId = fst (read_varint keyBuffer 0 0 0),
      objectStoreId = fst (read_varint keyBuffer o1 0 0),
      indexId = fst (read_varint keyBuffer o2 0 0),
      userKey = (if drop o3 keyBuffer \<noteq> [] then
                   (case decode_user_key (drop o3 keyBuffer) of Inr k \<Rightarrow> k
                    | Inl e \<Rightarrow> KBytes (drop o3 keyBuffer))
                 else KNull)\<rparr>"
    unfolding parseIndexedDbKey_def parseIndexedDbKey_body_def o1_def o2_def o3_def
    by (simp add: Let_def split_beta)
  show fo: "field_offsets keyBuffer = (o1, o2, o3)"
    unfolding field_offsets_def o1_def o2_def o3_def by (simp add: Let_def split_beta)
  show "userKeyBuffer_of keyBuffer = drop o3 keyBuffer"
    unfolding userKeyBuffer_of_def fo by simp
  show 1: "o1 \<le> length keyBuffer" unfolding o1_def by (rule read_varint_offset_le) simp
  show "o1 \<le> o2" unfolding o2_def by (rule read_varint_offset_ge)
  show 2: "o2 \<le> length keyBuffer" unfolding o2_def by (rule read_varint_offset_le[OF 1])
  show "o2 \<le> o3" unfolding o3_def by (rule read_varint_offset_ge)
  show "o3 \<le> length keyBuffer" unfolding o3_def by (rule read_varint_offset_le[OF 2])
qed

lemma read_varint_trace_done_indep:
  "snd (snd (read_varint_trace keyBuffer offset acc shift reads)) =
   snd (snd (read_varint_trace keyBuffer offset acc shift []))"
proof (induction keyBuffer offset acc shift arbitrary: reads rule: read_varint.induct)
  case (1 keyBuffer offset acc shift)
  show ?case
  proof (cases "offset < length keyBuffer \<and> js_and (uint (keyBuffer ! offset)) 0x80 \<noteq> 0")
    case True
    let ?acc = "js_or acc (js_shl (js_and (uint (keyBuffer ! offset)) 0x7F) shift)"
    from True have lt: "offset < length keyBuffer"
      and cont: "js_and (uint (keyBuffer ! offset)) 0x80 \<noteq> 0" by simp_all
    note ih = "1.IH"[OF lt refl refl refl cont]
    have l: "read_varint_trace keyBuffer offset acc shift reads =
        read_varint_trace keyBuffer (offset + 1) ?acc (shift + 7) (reads @ [offset])"
      using lt cont by (subst read_varint_trace.simps) (simp add: Let_def)
    have r: "read_varint_trace keyBuffer offset acc shift [] =
        read_varint_trace keyBuffer (offset + 1) ?acc (shift + 7) [offset]"
      using lt cont by (subst read_varint_trace.simps) (simp add: Let_def)
    show ?thesis unfolding l r using ih[of "reads @ [offset]"] ih[of "[offset]"]
      by (rule trans[OF _ sym])
  next
    case False
    have "read_varint_trace keyBuffer offset acc shift reads =
        (if offset < length keyBuffer then
           ((js_or acc (js_shl (js_and (uint (keyBuffer ! offset)) 0x7F) shift), offset + 1),
            reads @ [offset], True)
         else ((acc, offset), reads, False))" for reads
      using False by (subst read_varint_trace.simps) (auto simp: Let_def)
    then show ?thesis by simp
  qed
qed

lemma read_varint_trace_eq:
  "offset \<le> length keyBuffer \<Longrightarrow>
   read_varint_trace keyBuffer offset 0 0 reads =
     (read_varint keyBuffer offset 0 0,
      reads @ [offset ..< snd (read_varint keyBuffer offset 0 0)],
      field_done keyBuffer offset)"
  using read_varint_trace_fst[of keyBuffer offset 0 0 reads]
    read_varint_trace_reads[of offset keyBuffer 0 0 reads]
    read_varint_trace_done_indep[of keyBuffer offset 0 0 reads]
  by (simp add: field_done_def prod_eq_iff)

lemma field_not_done:
  "offset \<le> length keyBuffer \<Longrightarrow> \<not> field_done keyBuffer offset \<Longrightarrow>
   read_varint keyBuffer offset 0 0 = (accumulate_bytes 0 0 (drop offset keyBuffer), length keyBuffer)"
  unfolding field_done_def by (rule read_varint_unterminated)

lemma parseIndexedDbKey_trace_eq:
  fixes keyBuffer :: buffer
  defines "o1 \<equiv> snd (read_varint keyBuffer 0 0 0)"
  defines "o2 \<equiv> snd (read_varint keyBuffer o1 0 0)"
  defines "o3 \<equiv> snd (read_varint keyBuffer o2 0 0)"
  shows "parseIndexedDbKey_trace keyBuffer =
    ([0 ..< o3], field_done keyBuffer 0, field_done keyBuffer o1, field_done keyBuffer o2)"
proof -
  have 1: "o1 \<le> length keyBuffer" unfolding o1_def by (rule read_varint_offset_le) simp
  have 2: "o2 \<le> length keyBuffer" unfolding o2_def by (rule read_varint_offset_le[OF 1])
  have 12: "o1 \<le> o2" unfolding o2_def by (rule read_varint_offset_ge)
  have 23: "o2 \<le> o3" unfolding o3_def by (rule read_varint_offset_ge)
  have a: "[0 ..< o1] @ [o1 ..< o2] = [0 ..< o2]"
    using 12 upt_add_eq_append[of 0 o1 "o2 - o1"] by simp
  have b: "[0 ..< o2] @ [o2 ..< o3] = [0 ..< o3]"
    using 23 upt_add_eq_append[of 0 o2 "o3 - o2"] by simp
  have t1: "read_varint_trace keyBuffer 0 0 0 [] =
      ((fst (read_varint keyBuffer 0 0 0), o1), [0 ..< o1], field_done keyBuffer 0)"
    using read_varint_trace_eq[of 0 keyBuffer "[]"] by (simp add: o1_def)
  have t2: "read_varint_trace keyBuffer o1 0 0 [0 ..< o1] =
      ((fst (read_varint keyBuffer o1 0 0), o2), [0 ..< o2], field_done keyBuffer o1)"
    using read_varint_trace_eq[OF 1, of "[0 ..< o1]"] a by (simp add: o2_def)
  have t3: "read_varint_trace keyBuffer o2 0 0 [0 ..< o2] =
      ((fst (read_varint keyBuffer o2 0 0), o3), [0 ..< o3], field_done keyBuffer o2)"
    using read_varint_trace_eq[OF 2, of "[0 ..< o2]"] b by (simp add: o3_def)
  show ?thesis
    unfolding parseIndexedDbKey_trace_def t1 Let_def prod.case t2 t3 by simp
qed

text \<open>
  C2. For every buffer \<open>parseIndexedDbKey\<close> returns a record (the function is total and
  never yields the \<open>null\<close> of its \<open>catch\<close>). Its three loops together make one
  iteration per index \<open>0, 1, ..., offset3 - 1\<close>, each read once and inside the buffer, so
  at most \<open>length keyBuffer\<close> iterations. A field that the end of the buffer cuts short
  has the value accumulated from all the bytes that were left for it, every later field
  is 0, nothing remains for the user key, and the user key is absent.
\<close>

theorem parseIndexedDbKey_bounded_total:
  "\<exists>r. parseIndexedDbKey keyBuffer = Some r \<and>
     (case (parseIndexedDbKey_trace keyBuffer, field_offsets keyBuffer) of
        ((reads, done1, done2, done3), (offset1, offset2, offset3)) \<Rightarrow>
          reads = [0 ..< offset3] \<and> offset3 \<le> length keyBuffer \<and>
          length reads \<le> length keyBuffer \<and> (\<forall>i \<in> set reads. i < length keyBuffer) \<and>
          (\<not> done1 \<longrightarrow> databaseId r = accumulate_bytes 0 0 keyBuffer \<and>
             objectStoreId r = 0 \<and> indexId r = 0 \<and>
             userKeyBuffer_of keyBuffer = [] \<and> userKey r = KNull) \<and>
          (\<not> done2 \<longrightarrow> objectStoreId r = accumulate_bytes 0 0 (drop offset1 keyBuffer) \<and>
             indexId r = 0 \<and> userKeyBuffer_of keyBuffer = [] \<and> userKey r = KNull) \<and>
          (\<not> done3 \<longrightarrow> indexId r = accumulate_bytes 0 0 (drop offset2 keyBuffer) \<and>
             userKeyBuffer_of keyBuffer = [] \<and> userKey r = KNull))"
proof -
  define o1 where "o1 = snd (read_varint keyBuffer 0 0 0)"
  define o2 where "o2 = snd (read_varint keyBuffer o1 0 0)"
  define o3 where "o3 = snd (read_varint keyBuffer o2 0 0)"
  note f = parseIndexedDbKey_fields[of keyBuffer, folded o1_def o2_def o3_def]
  note t = parseIndexedDbKey_trace_eq[of keyBuffer, folded o1_def o2_def o3_def]
  have full: "read_varint keyBuffer (length keyBuffer) 0 0 = (0, length keyBuffer)"
    by (simp add: read_varint_exhausted)
  have d1: "fst (read_varint keyBuffer 0 0 0) = accumulate_bytes 0 0 keyBuffer \<and> o1 = length keyBuffer"
    if "\<not> field_done keyBuffer 0"
    using field_not_done[of 0 keyBuffer] that by (simp add: o1_def)
  have d2: "fst (read_varint keyBuffer o1 0 0) = accumulate_bytes 0 0 (drop o1 keyBuffer) \<and> o2 = length keyBuffer"
    if "\<not> field_done keyBuffer o1"
    using field_not_done[OF f(4)] that by (simp add: o2_def)
  have d3: "fst (read_varint keyBuffer o2 0 0) = accumulate_bytes 0 0 (drop o2 keyBuffer) \<and> o3 = length keyBuffer"
    if "\<not> field_done keyBuffer o2"
    using field_not_done[OF f(6)] that by (simp add: o3_def)
  have e2: "o2 = length keyBuffer \<and> fst (read_varint keyBuffer o1 0 0) = 0" if "o1 = length keyBuffer"
    using that full by (simp add: o2_def)
  have e3: "o3 = length keyBuffer \<and> fst (read_varint keyBuffer o2 0 0) = 0" if "o2 = length keyBuffer"
    using that full by (simp add: o3_def)
  show ?thesis
    unfolding f(1) f(2) f(3) t using f(8) d1 d2 d3 e2 e3
    by auto
qed

theorem parseIndexedDbKey_bounded_total_witness:
  "parseIndexedDbKey [0x81, 0x82] =
     Some \<lparr>databaseId = 257, objectStoreId = 0, indexId = 0, userKey = KNull\<rparr> \<and>
   parseIndexedDbKey_trace [0x81, 0x82] = ([0, 1], False, False, False) \<and>
   parseIndexedDbKey [0x00, 0x81] =
     Some \<lparr>databaseId = 0, objectStoreId = 1, indexId = 0, userKey = KNull\<rparr> \<and>
   parseIndexedDbKey_trace [0x00, 0x81] = ([0, 1], True, False, False) \<and>
   parseIndexedDbKey [0x00, 0x02, 0x83] =
     Some \<lparr>databaseId = 0, objectStoreId = 2, indexId = 3, userKey = KNull\<rparr> \<and>
   parseIndexedDbKey_trace [0x00, 0x02, 0x83] = ([0, 1, 2], True, True, False) \<and>
   userKeyBuffer_of [0x00, 0x02, 0x83] = [] \<and>
   parseIndexedDbKey [] =
     Some \<lparr>databaseId = 0, objectStoreId = 0, indexId = 0, userKey = KNull\<rparr>"
  using parseIndexedDbKey_bounded_total[of "[0x81, 0x82]"]
    parseIndexedDbKey_bounded_total[of "[0x00, 0x81]"]
    parseIndexedDbKey_bounded_total[of "[0x00, 0x02, 0x83]"]
    parseIndexedDbKey_bounded_total[of "[]"]
  by (simp add: parseIndexedDbKey_def parseIndexedDbKey_body_def parseIndexedDbKey_trace_def
      userKeyBuffer_of_def field_offsets_def
      read_varint.simps read_varint_trace.simps js_or_def js_and_def js_shl_def ToInt32_def)

lemma decode_user_key_text:
  "hd buf \<noteq> 0 \<Longrightarrow> buf \<noteq> [] \<Longrightarrow> decode_user_key buf = Inr (KText (toString_utf8 buf))"
proof -
  assume h: "hd buf \<noteq> 0" and ne: "buf \<noteq> []"
  then obtain b bs where buf: "buf = b # bs" and b: "b \<noteq> 0" by (cases buf) auto
  obtain u us where "toString_utf8 (b # bs) = u # us" "u = 0 \<longleftrightarrow> b = 0"
    using toString_utf8_first by blast
  then show ?thesis using b by (simp add: decode_user_key_def buf)
qed

lemma decode_user_key_zero:
  "hd buf = 0 \<Longrightarrow> buf \<noteq> [] \<Longrightarrow>
   decode_user_key buf =
     (if length buf \<le> 8 then
        (case readDoubleBE buf 0 of Inl e \<Rightarrow> Inl e | Inr d \<Rightarrow> Inr (KNumber d))
      else Inr (KBytes buf))"
proof -
  assume h: "hd buf = 0" and ne: "buf \<noteq> []"
  then obtain bs where buf: "buf = 0 # bs" by (cases buf) auto
  obtain u us where "toString_utf8 (0 # bs) = u # us" "u = 0"
    using toString_utf8_first[of 0 bs] by auto
  then show ?thesis by (simp add: decode_user_key_def buf)
qed

text \<open>
  C3, as amended. After the three varint fields, with \<open>remainder\<close> the bytes that are
  left: an empty remainder gives an absent (\<open>null\<close>) user key; a non-empty remainder
  whose first byte is nonzero gives its UTF-8 text; a remainder whose first byte is zero
  gives the big-endian double when it is exactly 8 bytes long and the raw bytes when it
  is longer than 8 bytes.
\<close>

theorem parseIndexedDbKey_userKey:
  "\<exists>r. parseIndexedDbKey keyBuffer = Some r \<and>
     (let remainder = userKeyBuffer_of keyBuffer in
        (remainder = [] \<longrightarrow> userKey r = KNull) \<and>
        (remainder \<noteq> [] \<and> hd remainder \<noteq> 0 \<longrightarrow> userKey r = KText (toString_utf8 remainder)) \<and>
        (remainder \<noteq> [] \<and> hd remainder = 0 \<and> length remainder = 8 \<longrightarrow>
           userKey r = KNumber (word_rcat remainder)) \<and>
        (remainder \<noteq> [] \<and> hd remainder = 0 \<and> 8 < length remainder \<longrightarrow>
           userKey r = KBytes remainder))"
proof -
  define o1 where "o1 = snd (read_varint keyBuffer 0 0 0)"
  define o2 where "o2 = snd (read_varint keyBuffer o1 0 0)"
  define o3 where "o3 = snd (read_varint keyBuffer o2 0 0)"
  note f = parseIndexedDbKey_fields[of keyBuffer, folded o1_def o2_def o3_def]
  show ?thesis
    unfolding f(1) f(3) Let_def
    by (auto simp: decode_user_key_text decode_user_key_zero readDoubleBE_def)
qed

text \<open>
  A remainder of 1 to 7 bytes that starts with a zero byte passes the test
  \<open>userKeyBuffer.length <= 8\<close>, \<open>readDoubleBE(0)\<close> throws, and the inner \<open>catch\<close> keeps
  the raw bytes.
\<close>

lemma parseIndexedDbKey_short_zero_remainder:
  assumes "userKeyBuffer_of keyBuffer \<noteq> []" "hd (userKeyBuffer_of keyBuffer) = 0"
    "length (userKeyBuffer_of keyBuffer) < 8"
  shows "\<exists>r. parseIndexedDbKey keyBuffer = Some r \<and> userKey r = KBytes (userKeyBuffer_of keyBuffer)"
proof -
  define o1 where "o1 = snd (read_varint keyBuffer 0 0 0)"
  define o2 where "o2 = snd (read_varint keyBuffer o1 0 0)"
  define o3 where "o3 = snd (read_varint keyBuffer o2 0 0)"
  note f = parseIndexedDbKey_fields[of keyBuffer, folded o1_def o2_def o3_def]
  show ?thesis
    using assms unfolding f(1) f(3)
    by (auto simp: decode_user_key_zero readDoubleBE_def)
qed

text \<open>The equations that evaluate \<open>parseIndexedDbKey\<close> on a concrete buffer.\<close>

lemmas utf8_eval = toString_utf8_def utf8_step.simps

lemmas key_eval = parseIndexedDbKey_def parseIndexedDbKey_body_def userKeyBuffer_of_def field_offsets_def
  read_varint.simps js_or_def js_and_def js_shl_def ToInt32_def decode_user_key_def readDoubleBE_def

theorem parseIndexedDbKey_userKey_witness:
  "parseIndexedDbKey [0, 2, 0] =
     Some \<lparr>databaseId = 0, objectStoreId = 2, indexId = 0, userKey = KNull\<rparr> \<and>
   parseIndexedDbKey [0, 2, 0, 0x74, 0x31] =
     Some \<lparr>databaseId = 0, objectStoreId = 2, indexId = 0, userKey = KText [0x74, 0x31]\<rparr> \<and>
   parseIndexedDbKey [0, 2, 0, 0, 0x09, 0x21, 0xFB, 0x54, 0x44, 0x2D, 0x18] =
     Some \<lparr>databaseId = 0, objectStoreId = 2, indexId = 0, userKey = KNumber 0x0921FB54442D18\<rparr> \<and>
   parseIndexedDbKey [0, 2, 0, 0, 1, 2, 3, 4, 5, 6, 7, 8] =
     Some \<lparr>databaseId = 0, objectStoreId = 2, indexId = 0,
           userKey = KBytes [0, 1, 2, 3, 4, 5, 6, 7, 8]\<rparr>"
  using parseIndexedDbKey_userKey[of "[0, 2, 0]"]
    parseIndexedDbKey_userKey[of "[0, 2, 0, 0x74, 0x31]"]
    parseIndexedDbKey_userKey[of "[0, 2, 0, 0, 0x09, 0x21, 0xFB, 0x54, 0x44, 0x2D, 0x18]"]
    parseIndexedDbKey_userKey[of "[0, 2, 0, 0, 1, 2, 3, 4, 5, 6, 7, 8]"]
  by (simp add: key_eval utf8_eval word_rcat_def)

text \<open>
  C3 as stated fails. The key \<open>[0, 2, 0]\<close> has an empty remainder, which is at most 8
  bytes long and does not start with a nonzero byte, yet the user key is \<open>null\<close>, not
  a double; the key \<open>[0, 2, 0, 0, 1]\<close> has the two-byte remainder \<open>[0, 1]\<close>, and
  the user key is the raw bytes, not a double.
\<close>

theorem userKey_double_counterexample:
  "userKeyBuffer_of [0, 2, 0] = [] \<and>
   length (userKeyBuffer_of [0, 2, 0]) \<le> 8 \<and>
   parseIndexedDbKey [0, 2, 0] =
     Some \<lparr>databaseId = 0, objectStoreId = 2, indexId = 0, userKey = KNull\<rparr> \<and>
   userKeyBuffer_of [0, 2, 0, 0, 1] = [0, 1] \<and>
   length (userKeyBuffer_of [0, 2, 0, 0, 1]) \<le> 8 \<and>
   parseIndexedDbKey [0, 2, 0, 0, 1] =
     Some \<lparr>databaseId = 0, objectStoreId = 2, indexId = 0, userKey = KBytes [0, 1]\<rparr>"
  by (simp add: key_eval utf8_eval)

section \<open>The varint round trip\<close>

lemma sint_word_of_int_small:
  "0 \<le> x \<Longrightarrow> x < 2 ^ 31 \<Longrightarrow> sint (word_of_int x :: 32 word) = x"
  by (simp add: sint_sbintrunc' signed_take_bit_int_eq_self)

lemma js_or_small:
  assumes "0 \<le> a" "0 \<le> b" "a OR b < 2 ^ 31"
  shows "js_or a b = a OR b"
proof -
  have "(word_of_int a :: 32 word) OR word_of_int b = word_of_int (a OR b)"
    by (simp add: of_int_or_eq)
  moreover have "0 \<le> a OR b" using assms(1,2) by simp
  ultimately show ?thesis
    using assms(3) by (simp add: js_or_def ToInt32_def sint_word_of_int_small)
qed

lemma js_and_small:
  assumes "0 \<le> a" "0 \<le> b" "b < 2 ^ 31"
  shows "js_and a b = a AND b"
proof -
  have "(word_of_int a :: 32 word) AND word_of_int b = word_of_int (a AND b)"
    by (simp add: of_int_and_eq)
  moreover have "0 \<le> a AND b" using assms(1) by simp
  moreover have "a AND b \<le> b" using assms(2) by (rule AND_upper2)
  ultimately show ?thesis
    using assms(3) by (simp add: js_and_def ToInt32_def sint_word_of_int_small)
qed

lemma js_shl_small:
  assumes "0 \<le> c" "c * 2 ^ s < 2 ^ 31" "s < 32"
  shows "js_shl c s = c * 2 ^ s"
proof -
  have p: "push_bit s c = c * 2 ^ s" by (simp add: push_bit_eq_mult)
  have "js_shl c s = sint (word_of_int (push_bit s c) :: 32 word)"
    using assms(3) by (simp add: js_shl_def ToInt32_def push_bit_of_int)
  also have "\<dots> = push_bit s c"
    using assms(1,2) unfolding p by (intro sint_word_of_int_small) simp_all
  finally show ?thesis unfolding p .
qed

lemma or_shifted_disjoint:
  fixes a c :: int
  assumes "0 \<le> a" "a < 2 ^ s"
  shows "a OR c * 2 ^ s = a + c * 2 ^ s"
proof -
  have a: "take_bit s a = a" using assms by (rule take_bit_int_eq_self)
  have "\<not> bit a n \<or> \<not> bit (push_bit s c) n" for n
  proof (cases "n < s")
    case True
    then show ?thesis by (simp add: bit_push_bit_iff)
  next
    case False
    have "bit (take_bit s a) n \<longleftrightarrow> n < s \<and> bit a n" by (rule bit_take_bit_iff)
    then show ?thesis using False a by simp
  qed
  then have "a + push_bit s c = a OR push_bit s c" by (rule disjunctive_add)
  then show ?thesis by (simp add: push_bit_eq_mult)
qed

lemma js_and_low7: "js_and (uint (b :: byte)) 0x7F = uint b mod 128"
proof -
  have "uint b AND 127 = take_bit 7 (uint b)"
    by (simp add: take_bit_eq_mask mask_eq_exp_minus_1)
  then have "uint b AND 127 = uint b mod 128" by (simp add: take_bit_eq_mod)
  moreover have "js_and (uint b) 127 = uint b AND 127"
    by (rule js_and_small) simp_all
  ultimately show ?thesis by simp
qed

lemma js_and_high_bit: "js_and (uint (b :: byte)) 0x80 = 0 \<longleftrightarrow> uint b < 128"
proof -
  have r: "uint b < 256" using uint_bounded[of b] by simp
  have "js_and (uint b) 128 = uint b AND 128"
    by (rule js_and_small) simp_all
  moreover have "uint b AND 2 ^ 7 = 0 \<longleftrightarrow> \<not> bit (uint b) 7"
    by (rule and_exp_eq_0_iff_not_bit)
  moreover have "bit (uint b) 7 \<longleftrightarrow> 128 \<le> uint b"
  proof -
    have "uint b div 128 = (if 128 \<le> uint b then 1 else 0)"
      using r by auto
    then show ?thesis by (simp add: bit_iff_odd)
  qed
  ultimately show ?thesis by auto
qed


lemma shifted_sum_bound:
  fixes acc m :: int
  assumes "acc < 2 ^ s" "m * 2 ^ s < 2 ^ 31" "s < 32"
  shows "acc + m * 2 ^ s < 2 ^ 31"
proof -
  have e: "(2::int) ^ 31 = 2 ^ (31 - s) * 2 ^ s"
    using assms(3) by (simp flip: power_add)
  have "m * 2 ^ s < 2 ^ (31 - s) * 2 ^ s"
    using assms(2) unfolding e .
  then have "m < 2 ^ (31 - s)"
    by (simp only: mult_less_cancel_right_pos zero_less_power zero_less_numeral)
  then have "m + 1 \<le> 2 ^ (31 - s)" by linarith
  then have "(m + 1) * 2 ^ s \<le> 2 ^ (31 - s) * 2 ^ s"
    by (rule mult_right_mono) simp
  then have "m * 2 ^ s + 2 ^ s \<le> 2 ^ 31"
    unfolding e[symmetric] by (simp only: distrib_right mult_1)
  with assms(1) show ?thesis by linarith
qed

lemma continuation_shift_bound:
  assumes "128 \<le> n" "int n * 2 ^ s < 2 ^ 31"
  shows "s + 7 < 31"
proof -
  have "(128 :: int) * 2 ^ s \<le> int n * 2 ^ s"
    using assms(1) by (intro mult_right_mono) simp_all
  then have "(128 :: int) * 2 ^ s < 2 ^ 31"
    using assms(2) by linarith
  moreover have "(2::int) ^ (s + 7) = 128 * 2 ^ s" by (simp add: power_add)
  ultimately have "(2::int) ^ (s + 7) < 2 ^ 31" by (simp only:)
  then show ?thesis
    by (rule power_less_imp_less_exp[rotated]) simp
qed

lemma uint_byte_of_nat: "n < 256 \<Longrightarrow> uint (of_nat n :: byte) = int n"
  by (simp add: uint_nat unat_of_nat)

lemma read_varint_terminal:
  assumes "buf ! offset = (of_nat n :: byte)" "offset < length buf" "n < 128"
    "0 \<le> acc" "acc < 2 ^ s" "int n * 2 ^ s < 2 ^ 31" "s < 32"
  shows "read_varint buf offset acc s = (acc + int n * 2 ^ s, offset + 1)"
proof -
  have "uint (of_nat n :: byte) = int n"
    using assms(3) by (intro uint_byte_of_nat) simp
  then have u: "uint (buf ! offset) = int n"
    unfolding assms(1) .
  have low: "js_and (uint (buf ! offset)) 0x7F = int n"
    using js_and_low7[of "buf ! offset"] assms(3) unfolding u by simp
  have high: "js_and (uint (buf ! offset)) 0x80 = 0"
    using js_and_high_bit[of "buf ! offset"] assms(3) unfolding u by simp
  have shl: "js_shl (int n) s = int n * 2 ^ s"
    using assms(6,7) by (intro js_shl_small) simp_all
  have sum: "acc OR int n * 2 ^ s = acc + int n * 2 ^ s"
    using assms(4,5) by (rule or_shifted_disjoint)
  have "js_or acc (int n * 2 ^ s) = acc OR int n * 2 ^ s"
  proof (rule js_or_small)
    show "0 \<le> acc" by (rule assms(4))
    show "0 \<le> int n * 2 ^ s" by simp
    show "acc OR int n * 2 ^ s < 2 ^ 31"
      unfolding sum by (rule shifted_sum_bound[OF assms(5,6,7)])
  qed
  then have or: "js_or acc (js_shl (js_and (uint (buf ! offset)) 0x7F) s) = acc + int n * 2 ^ s"
    by (simp add: low shl sum)
  show ?thesis
    using assms(2) by (subst read_varint.simps) (simp add: Let_def or high)
qed

lemma read_varint_continue:
  assumes "buf ! offset = (of_nat (c + 128) :: byte)" "offset < length buf" "c < 128"
    "0 \<le> acc" "acc < 2 ^ s" "int c * 2 ^ s < 2 ^ 31" "s < 32"
  shows "read_varint buf offset acc s = read_varint buf (offset + 1) (acc + int c * 2 ^ s) (s + 7)"
proof -
  have "uint (of_nat (c + 128) :: byte) = int (c + 128)"
    using assms(3) by (intro uint_byte_of_nat) simp
  then have u: "uint (buf ! offset) = int c + 128"
    unfolding assms(1) by simp
  have low: "js_and (uint (buf ! offset)) 0x7F = int c"
    using js_and_low7[of "buf ! offset"] assms(3) unfolding u by simp
  have high: "js_and (uint (buf ! offset)) 0x80 \<noteq> 0"
    using js_and_high_bit[of "buf ! offset"] unfolding u by simp
  have shl: "js_shl (int c) s = int c * 2 ^ s"
    using assms(6,7) by (intro js_shl_small) simp_all
  have sum: "acc OR int c * 2 ^ s = acc + int c * 2 ^ s"
    using assms(4,5) by (rule or_shifted_disjoint)
  have "js_or acc (int c * 2 ^ s) = acc OR int c * 2 ^ s"
  proof (rule js_or_small)
    show "0 \<le> acc" by (rule assms(4))
    show "0 \<le> int c * 2 ^ s" by simp
    show "acc OR int c * 2 ^ s < 2 ^ 31"
      unfolding sum by (rule shifted_sum_bound[OF assms(5,6,7)])
  qed
  then have or: "js_or acc (js_shl (js_and (uint (buf ! offset)) 0x7F) s) = acc + int c * 2 ^ s"
    by (simp add: low shl sum)
  show ?thesis
    using assms(2) by (subst read_varint.simps) (simp add: Let_def or high)
qed

lemma read_varint_encoded:
  "0 \<le> acc \<Longrightarrow> acc < 2 ^ s \<Longrightarrow> int n * 2 ^ s < 2 ^ 31 \<Longrightarrow> s < 32 \<Longrightarrow>
   read_varint (pre @ spec_encode_varint n @ post) (length pre) acc s =
     (acc + int n * 2 ^ s, length pre + length (spec_encode_varint n))"
proof (induction n arbitrary: pre acc s rule: spec_encode_varint.induct)
  case (1 n)
  show ?case
  proof (cases "n < 128")
    case True
    have enc: "spec_encode_varint n = [of_nat n]"
      using True by (subst spec_encode_varint.simps) simp
    show ?thesis
      unfolding enc
      using read_varint_terminal[of "pre @ [of_nat n] @ post" "length pre" n acc s] True "1.prems"
      by simp
  next
    case False
    let ?c = "n mod 128"
    let ?b = "of_nat (?c + 128) :: byte"
    let ?acc = "acc + int ?c * 2 ^ s"
    have enc: "spec_encode_varint n = ?b # spec_encode_varint (n div 128)"
      using False by (subst spec_encode_varint.simps) simp
    have cle: "int ?c * 2 ^ s \<le> int n * 2 ^ s"
      by (intro mult_right_mono) simp_all
    then have cb: "int ?c * 2 ^ s < 2 ^ 31" using "1.prems"(3) by linarith
    have s7: "s + 7 < 31"
      using False "1.prems"(3) by (intro continuation_shift_bound[of n s]) simp_all
    have step: "read_varint (pre @ spec_encode_varint n @ post) (length pre) acc s =
        read_varint (pre @ spec_encode_varint n @ post) (length pre + 1) ?acc (s + 7)"
      using "1.prems" cb
      by (intro read_varint_continue) (simp_all add: enc nth_append)
    have acc0: "0 \<le> ?acc" using "1.prems"(1) by simp
    have "int ?c \<le> 127" by simp
    then have "int ?c * 2 ^ s \<le> 127 * 2 ^ s" by (intro mult_right_mono) simp_all
    moreover have "(2::int) ^ (s + 7) = 128 * 2 ^ s" by (simp add: power_add)
    ultimately have acc1: "?acc < 2 ^ (s + 7)"
      using "1.prems"(2) by linarith
    have split: "int n = int (n div 128) * 128 + int ?c"
      by (metis of_nat_add of_nat_mult of_nat_numeral div_mult_mod_eq)
    have rest: "int (n div 128) * 2 ^ (s + 7) < 2 ^ 31"
    proof -
      have "int (n div 128) * 2 ^ (s + 7) = (int (n div 128) * 128) * 2 ^ s"
        by (simp add: power_add)
      also have "\<dots> \<le> int n * 2 ^ s"
        by (intro mult_right_mono) (simp_all add: split)
      finally show ?thesis using "1.prems"(3) by linarith
    qed
    have ih: "read_varint ((pre @ [?b]) @ spec_encode_varint (n div 128) @ post) (length (pre @ [?b])) ?acc (s + 7) =
        (?acc + int (n div 128) * 2 ^ (s + 7), length (pre @ [?b]) + length (spec_encode_varint (n div 128)))"
      using s7 by (intro "1.IH"[OF False acc0 acc1 rest]) simp
    have "int n * 2 ^ s = (int (n div 128) * 128 + int ?c) * 2 ^ s"
      using split by simp
    also have "\<dots> = int (n div 128) * 2 ^ (s + 7) + int ?c * 2 ^ s"
      by (simp add: power_add algebra_simps)
    finally have total: "?acc + int (n div 128) * 2 ^ (s + 7) = acc + int n * 2 ^ s"
      by simp
    show ?thesis
      unfolding step using ih unfolding total by (simp add: enc)
  qed
qed

lemma read_varint_encoded_field:
  assumes "n < 2 ^ 31"
  shows "read_varint (pre @ spec_encode_varint n @ post) (length pre) 0 0 =
     (int n, length pre + length (spec_encode_varint n))"
proof -
  have "int n < 2 ^ 31" using assms by (metis of_nat_less_iff of_nat_numeral of_nat_power)
  then show ?thesis
    using read_varint_encoded[of 0 0 n pre post] by simp
qed

text \<open>
  Below \<open>2^31\<close> the round trip holds: three encoded fields decode to themselves and leave
  no user key.
\<close>

lemma varint_round_trip_below_2_31:
  assumes "a < 2 ^ 31" "b < 2 ^ 31" "c < 2 ^ 31"
  shows "parseIndexedDbKey (spec_encode_fields [a, b, c]) =
    Some \<lparr>databaseId = int a, objectStoreId = int b, indexId = int c, userKey = KNull\<rparr>"
proof -
  let ?A = "spec_encode_varint a" and ?B = "spec_encode_varint b" and ?C = "spec_encode_varint c"
  have buf: "spec_encode_fields [a, b, c] = ?A @ ?B @ ?C"
    by (simp add: spec_encode_fields_def)
  have 1: "read_varint (?A @ ?B @ ?C) 0 0 0 = (int a, length ?A)"
    using read_varint_encoded_field[OF assms(1), of "[]" "?B @ ?C"] by simp
  have 2: "read_varint (?A @ ?B @ ?C) (length ?A) 0 0 = (int b, length ?A + length ?B)"
    using read_varint_encoded_field[OF assms(2), of ?A ?C] by simp
  have 3: "read_varint (?A @ ?B @ ?C) (length ?A + length ?B) 0 0 =
      (int c, length ?A + length ?B + length ?C)"
    using read_varint_encoded_field[OF assms(3), of "?A @ ?B" "[]"] by simp
  show ?thesis
    unfolding buf parseIndexedDbKey_def parseIndexedDbKey_body_def
    by (simp add: 1 2 3)
qed

text \<open>Fewer than three fields: the missing ones decode as 0.\<close>

lemma varint_round_trip_shorter:
  assumes "a < 2 ^ 31" "b < 2 ^ 31"
  shows "parseIndexedDbKey (spec_encode_fields [a, b]) =
      Some \<lparr>databaseId = int a, objectStoreId = int b, indexId = 0, userKey = KNull\<rparr>"
    and "parseIndexedDbKey (spec_encode_fields [a]) =
      Some \<lparr>databaseId = int a, objectStoreId = 0, indexId = 0, userKey = KNull\<rparr>"
    and "parseIndexedDbKey (spec_encode_fields []) =
      Some \<lparr>databaseId = 0, objectStoreId = 0, indexId = 0, userKey = KNull\<rparr>"
proof -
  let ?A = "spec_encode_varint a" and ?B = "spec_encode_varint b"
  have 1: "read_varint (?A @ ?B) 0 0 0 = (int a, length ?A)"
    using read_varint_encoded_field[OF assms(1), of "[]" ?B] by simp
  have 2: "read_varint (?A @ ?B) (length ?A) 0 0 = (int b, length ?A + length ?B)"
    using read_varint_encoded_field[OF assms(2), of ?A "[]"] by simp
  have 3: "read_varint ?A 0 0 0 = (int a, length ?A)"
    using read_varint_encoded_field[OF assms(1), of "[]" "[]"] by simp
  show "parseIndexedDbKey (spec_encode_fields [a, b]) =
      Some \<lparr>databaseId = int a, objectStoreId = int b, indexId = 0, userKey = KNull\<rparr>"
    unfolding parseIndexedDbKey_def parseIndexedDbKey_body_def
    by (simp add: spec_encode_fields_def 1 2 read_varint_exhausted)
  show "parseIndexedDbKey (spec_encode_fields [a]) =
      Some \<lparr>databaseId = int a, objectStoreId = 0, indexId = 0, userKey = KNull\<rparr>"
    unfolding parseIndexedDbKey_def parseIndexedDbKey_body_def
    by (simp add: spec_encode_fields_def 3 read_varint_exhausted)
  show "parseIndexedDbKey (spec_encode_fields []) =
      Some \<lparr>databaseId = 0, objectStoreId = 0, indexId = 0, userKey = KNull\<rparr>"
    unfolding parseIndexedDbKey_def parseIndexedDbKey_body_def
    by (simp add: spec_encode_fields_def read_varint_exhausted)
qed

text \<open>
  C1 fails on the code from \<open>2^31\<close> on. The integers 2147483648, 4294967296 and
  34359738367 are below \<open>2^35\<close>; encoded as the first of three fields they decode to the
  \<open>databaseId\<close> -2147483648, 0 and -1, because \<open>|=\<close> and \<open><<\<close> work on 32 bits.
\<close>

theorem varint_round_trip_fails_from_2_31:
  "spec_encode_fields [2147483648, 0, 0] = [0x80, 0x80, 0x80, 0x80, 0x08, 0x00, 0x00] \<and>
   parseIndexedDbKey (spec_encode_fields [2147483648, 0, 0]) =
     Some \<lparr>databaseId = - 2147483648, objectStoreId = 0, indexId = 0, userKey = KNull\<rparr> \<and>
   spec_encode_fields [4294967296, 0, 0] = [0x80, 0x80, 0x80, 0x80, 0x10, 0x00, 0x00] \<and>
   parseIndexedDbKey (spec_encode_fields [4294967296, 0, 0]) =
     Some \<lparr>databaseId = 0, objectStoreId = 0, indexId = 0, userKey = KNull\<rparr> \<and>
   spec_encode_fields [34359738367, 0, 0] = [0xFF, 0xFF, 0xFF, 0xFF, 0x7F, 0x00, 0x00] \<and>
   parseIndexedDbKey (spec_encode_fields [34359738367, 0, 0]) =
     Some \<lparr>databaseId = - 1, objectStoreId = 0, indexId = 0, userKey = KNull\<rparr>"
proof -
  have e: "spec_encode_fields [2147483648, 0, 0] = [0x80, 0x80, 0x80, 0x80, 0x08, 0x00, 0x00]"
    "spec_encode_fields [4294967296, 0, 0] = [0x80, 0x80, 0x80, 0x80, 0x10, 0x00, 0x00]"
    "spec_encode_fields [34359738367, 0, 0] = [0xFF, 0xFF, 0xFF, 0xFF, 0x7F, 0x00, 0x00]"
    by (simp_all add: spec_encode_fields_def spec_encode_varint.simps)
  show ?thesis
    unfolding e by (simp add: key_eval)
qed

section \<open>Properties of the regular expression\<close>

lemma prefix_takeWhile:
  "prefix p xs \<Longrightarrow> \<forall>u \<in> set p. P u \<Longrightarrow> prefix p (takeWhile P xs)"
proof (induction p arbitrary: xs)
  case Nil
  show ?case by simp
next
  case (Cons a p)
  then obtain ys where xs: "xs = a # ys" and "prefix p ys"
    by (cases xs) auto
  with Cons show ?case by simp
qed

lemma dropWhile_append_keep:
  "xs \<noteq> [] \<Longrightarrow> \<not> P (hd xs) \<Longrightarrow> \<exists>zs. dropWhile P (ys @ xs) = zs @ xs"
proof (induction ys)
  case Nil
  then have "dropWhile P xs = xs" by (cases xs) auto
  then show ?case by simp
next
  case (Cons y ys)
  then obtain zs where zs: "dropWhile P (ys @ xs) = zs @ xs" by blast
  show ?case
  proof (cases "P y")
    case True
    then show ?thesis using zs by simp
  next
    case False
    then have "dropWhile P ((y # ys) @ xs) = (y # ys) @ xs" by simp
    then show ?thesis by blast
  qed
qed

lemma dot_star_then_Some:
  assumes "dot_star_then c rest = Some p"
  shows "prefix p rest" and "p \<noteq> []" and "last p = c" and "\<forall>u \<in> set p. \<not> is_line_terminator u"
proof -
  define line where "line = takeWhile (\<lambda>u. \<not> is_line_terminator u) rest"
  define d where "d = dropWhile (\<lambda>u. u \<noteq> c) (rev line)"
  have p: "p = rev d" and ne: "rev d \<noteq> []"
    using assms by (auto simp: dot_star_then_def Let_def line_def d_def split: if_splits)
  show "p \<noteq> []" using p ne by simp
  have "rev line = takeWhile (\<lambda>u. u \<noteq> c) (rev line) @ d"
    by (simp add: d_def)
  then have "line = rev d @ rev (takeWhile (\<lambda>u. u \<noteq> c) (rev line))"
    by (metis rev_append rev_rev_ident)
  then have pl: "prefix p line" unfolding p by (metis prefixI)
  have "prefix line rest"
    unfolding line_def by (metis prefixI takeWhile_dropWhile_id)
  with pl show "prefix p rest" by (rule prefix_order.trans)
  have "d \<noteq> []" using ne by simp
  then have "\<not> (hd d \<noteq> c)" unfolding d_def by (rule hd_dropWhile)
  then show "last p = c" using \<open>d \<noteq> []\<close> by (simp add: p last_rev)
  have "set p \<subseteq> set line" using pl by (rule set_mono_prefix)
  then show "\<forall>u \<in> set p. \<not> is_line_terminator u"
    unfolding line_def by (auto dest: set_takeWhileD)
qed

lemma dot_star_then_longest:
  assumes "prefix q rest" and "q \<noteq> []" and "last q = c" and "\<forall>u \<in> set q. \<not> is_line_terminator u"
  shows "\<exists>p. dot_star_then c rest = Some p \<and> prefix q p"
proof -
  define line where "line = takeWhile (\<lambda>u. \<not> is_line_terminator u) rest"
  have "prefix q line"
    unfolding line_def using assms(1,4) by (rule prefix_takeWhile)
  then obtain t where line: "line = q @ t" by (auto simp: prefix_def)
  have "rev q \<noteq> []" and "\<not> (hd (rev q) \<noteq> c)"
    using assms(2,3) by (simp_all add: hd_rev)
  then obtain zs where "dropWhile (\<lambda>u. u \<noteq> c) (rev t @ rev q) = zs @ rev q"
    using dropWhile_append_keep[of "rev q" "\<lambda>u. u \<noteq> c" "rev t"] by blast
  then have upto: "rev (dropWhile (\<lambda>u. u \<noteq> c) (rev line)) = q @ rev zs"
    by (simp add: line)
  show ?thesis
    unfolding dot_star_then_def Let_def line_def[symmetric] upto
    using assms(2) by simp
qed

lemma opening_not_line_terminator:
  "\<not> is_line_terminator LBRACE" "\<not> is_line_terminator LBRACKET"
  by (simp_all add: is_line_terminator_def LBRACE_def LBRACKET_def)

lemma bracketed_Cons:
  "bracketed (u # q) \<longleftrightarrow>
     q \<noteq> [] \<and> (\<forall>v \<in> set q. \<not> is_line_terminator v) \<and>
     ((u = LBRACE \<and> last q = RBRACE) \<or> (u = LBRACKET \<and> last q = RBRACKET))"
proof (cases q)
  case Nil
  show ?thesis by (simp add: bracketed_def Nil)
next
  case (Cons v q')
  have "bracketed (u # v # q') \<longleftrightarrow>
      ((u = LBRACE \<and> last (v # q') = RBRACE) \<or> (u = LBRACKET \<and> last (v # q') = RBRACKET)) \<and>
      \<not> is_line_terminator u \<and> (\<forall>w \<in> set (v # q'). \<not> is_line_terminator w)"
    by (simp add: bracketed_def)
  also have "\<dots> \<longleftrightarrow>
      ((u = LBRACE \<and> last (v # q') = RBRACE) \<or> (u = LBRACKET \<and> last (v # q') = RBRACKET)) \<and>
      (\<forall>w \<in> set (v # q'). \<not> is_line_terminator w)"
    using opening_not_line_terminator by blast
  finally show ?thesis unfolding Cons by blast
qed

lemma match_here_Some:
  assumes "match_here s = Some m"
  shows "prefix m s" and "bracketed m" and "\<forall>m'. prefix m' s \<and> bracketed m' \<longrightarrow> prefix m' m"
proof -
  obtain u rest where s: "s = u # rest" using assms by (cases s) auto
  obtain c p where c: "(u = LBRACE \<and> c = RBRACE) \<or> (u = LBRACKET \<and> c = RBRACKET)"
    and p: "dot_star_then c rest = Some p" and m: "m = u # p"
    using assms unfolding s by (auto split: if_splits)
  note f = dot_star_then_Some[OF p]
  show "prefix m s" using f(1) by (simp add: s m)
  show "bracketed m" using f c by (auto simp: m bracketed_Cons)
  show "\<forall>m'. prefix m' s \<and> bracketed m' \<longrightarrow> prefix m' m"
  proof (intro allI impI)
    fix m' assume a: "prefix m' s \<and> bracketed m'"
    then obtain q where m': "m' = u # q" and q: "prefix q rest"
      by (cases m') (auto simp: s bracketed_def)
    have b: "q \<noteq> []" "\<forall>v \<in> set q. \<not> is_line_terminator v"
      "(u = LBRACE \<and> last q = RBRACE) \<or> (u = LBRACKET \<and> last q = RBRACKET)"
      using a unfolding m' bracketed_Cons by auto
    have "last q = c" using b(3) c by (auto simp: LBRACE_def LBRACKET_def)
    then obtain p' where "dot_star_then c rest = Some p'" "prefix q p'"
      using dot_star_then_longest[OF q b(1) _ b(2)] by blast
    with p show "prefix m' m" by (simp add: m m')
  qed
qed

lemma match_here_None:
  assumes "match_here s = None"
  shows "\<not> (prefix m' s \<and> bracketed m')"
proof
  assume a: "prefix m' s \<and> bracketed m'"
  then obtain u q rest where m': "m' = u # q" and s: "s = u # rest" and q: "prefix q rest"
    by (cases m'; cases s) (auto simp: bracketed_def)
  have b: "q \<noteq> []" "\<forall>v \<in> set q. \<not> is_line_terminator v"
    "(u = LBRACE \<and> last q = RBRACE) \<or> (u = LBRACKET \<and> last q = RBRACKET)"
    using a unfolding m' bracketed_Cons by auto
  from b(3) show False
  proof
    assume "u = LBRACE \<and> last q = RBRACE"
    then show False
      using dot_star_then_longest[OF q b(1) _ b(2), of RBRACE] assms
      by (auto simp: s)
  next
    assume "u = LBRACKET \<and> last q = RBRACKET"
    then show False
      using dot_star_then_longest[OF q b(1) _ b(2), of RBRACKET] assms
      by (auto simp: s LBRACE_def LBRACKET_def)
  qed
qed

lemma regex_match_None:
  "regex_match s = None \<Longrightarrow> \<not> (prefix m' (drop j s) \<and> bracketed m')"
proof (induction s arbitrary: j)
  case Nil
  show ?case by (auto simp: bracketed_def)
next
  case (Cons u rest)
  have h: "match_here (u # rest) = None" and r: "regex_match rest = None"
    using Cons.prems by (auto split: option.splits)
  show ?case
  proof (cases j)
    case 0
    then show ?thesis using match_here_None[OF h, of m'] by simp
  next
    case (Suc k)
    then show ?thesis using Cons.IH[OF r, of k] by simp
  qed
qed

lemma regex_match_Some:
  "regex_match s = Some m \<Longrightarrow>
   \<exists>i. prefix m (drop i s) \<and> bracketed m \<and>
       (\<forall>j m'. j < i \<and> prefix m' (drop j s) \<longrightarrow> \<not> bracketed m') \<and>
       (\<forall>m'. prefix m' (drop i s) \<and> bracketed m' \<longrightarrow> prefix m' m)"
proof (induction s)
  case Nil
  then show ?case by simp
next
  case (Cons u rest)
  show ?case
  proof (cases "match_here (u # rest)")
    case (Some m0)
    then have "m0 = m" using Cons.prems by simp
    with match_here_Some[OF Some] have
      "prefix m (drop 0 (u # rest)) \<and> bracketed m \<and>
       (\<forall>j m'. j < (0::nat) \<and> prefix m' (drop j (u # rest)) \<longrightarrow> \<not> bracketed m') \<and>
       (\<forall>m'. prefix m' (drop 0 (u # rest)) \<and> bracketed m' \<longrightarrow> prefix m' m)"
      by simp
    then show ?thesis by (rule exI)
  next
    case None
    then have "regex_match rest = Some m" using Cons.prems by simp
    then obtain i where i: "prefix m (drop i rest)" "bracketed m"
      "\<forall>j m'. j < i \<and> prefix m' (drop j rest) \<longrightarrow> \<not> bracketed m'"
      "\<forall>m'. prefix m' (drop i rest) \<and> bracketed m' \<longrightarrow> prefix m' m"
      using Cons.IH by blast
    have first: "\<not> bracketed m'" if "j < Suc i \<and> prefix m' (drop j (u # rest))" for j m'
    proof (cases j)
      case 0
      then show ?thesis using match_here_None[OF None, of m'] that by auto
    next
      case (Suc k)
      then show ?thesis using i(3) that by auto
    qed
    have "prefix m (drop (Suc i) (u # rest)) \<and> bracketed m \<and>
       (\<forall>j m'. j < Suc i \<and> prefix m' (drop j (u # rest)) \<longrightarrow> \<not> bracketed m') \<and>
       (\<forall>m'. prefix m' (drop (Suc i) (u # rest)) \<and> bracketed m' \<longrightarrow> prefix m' m)"
      using i first by auto
    then show ?thesis by (rule exI)
  qed
qed

section \<open>Properties of the value decoding\<close>

lemma decodeIndexedDbValue_body_no_throw:
  "\<exists>d. decodeIndexedDbValue_body JSON_parse valueBuffer = Inr d"
  by (simp add: decodeIndexedDbValue_body_def Let_def split: sum.split)

lemma decodeIndexedDbValue_cases:
  "decodeIndexedDbValue JSON_parse valueBuffer =
     (if startsWith (toString_utf8 valueBuffer) [LBRACE] \<or> startsWith (toString_utf8 valueBuffer) [LBRACKET]
      then (case JSON_parse (toString_utf8 valueBuffer) of
              Inr v \<Rightarrow> Structured v
            | Inl e \<Rightarrow> Opaque valueBuffer)
      else Opaque valueBuffer)"
  by (simp add: decodeIndexedDbValue_def decodeIndexedDbValue_body_def Let_def split: sum.split)

lemma decodeIndexedDbValue_Opaque:
  "decodeIndexedDbValue JSON_parse valueBuffer = Opaque buf \<Longrightarrow> buf = valueBuffer"
  by (simp add: decodeIndexedDbValue_cases split: if_splits sum.splits)

lemma decode_value_Opaque:
  "decode_value JSON_parse valueBuffer = Opaque buf \<Longrightarrow> buf = valueBuffer"
  by (auto simp: decode_value_def extract_json_def
      split: decoded_value.splits option.splits sum.splits
      dest: decodeIndexedDbValue_Opaque)

lemma decode_value_Structured:
  "decodeIndexedDbValue JSON_parse valueBuffer = Structured v \<Longrightarrow>
   decode_value JSON_parse valueBuffer = Structured v"
  by (simp add: decode_value_def extract_json_def)

text \<open>The equations that evaluate the value decoding with the reference \<open>JSON.parse\<close>.\<close>

lemmas value_eval = decode_value_def extract_json_def decodeIndexedDbValue_def
  decodeIndexedDbValue_body_def startsWith_def
  LBRACE_def RBRACE_def LBRACKET_def RBRACKET_def JSON_parse_ref_def skip_ws_def is_ws_def
  parse_number_def parse_int_part_def parse_frac_part_def parse_exp_part_def is_digit_def
  digits_value_def dot_star_then_def is_line_terminator_def

lemma startsWith_unit:
  "startsWith str [c] \<longleftrightarrow> take 1 str = [c]"
  by (simp add: startsWith_def)

lemma decodeIndexedDbValue_first_unit:
  "decodeIndexedDbValue JSON_parse valueBuffer =
     (if take 1 (toString_utf8 valueBuffer) = [0x7B] \<or> take 1 (toString_utf8 valueBuffer) = [0x5B]
      then (case JSON_parse (toString_utf8 valueBuffer) of
              Inr v \<Rightarrow> Structured v
            | Inl e \<Rightarrow> Opaque valueBuffer)
      else Opaque valueBuffer)"
  by (simp add: decodeIndexedDbValue_cases startsWith_unit LBRACE_def LBRACKET_def)

lemma decode_value_fallback_fails:
  assumes "decodeIndexedDbValue JSON_parse valueBuffer = Opaque valueBuffer"
    and "regex_match (toString_utf8 valueBuffer) = None \<or>
         (\<exists>m e. regex_match (toString_utf8 valueBuffer) = Some m \<and> JSON_parse m = Inl e)"
  shows "decode_value JSON_parse valueBuffer = Opaque valueBuffer"
  using assms by (auto simp: decode_value_def extract_json_def)

text \<open>
  C4. \<open>decodeIndexedDbValue\<close> decodes the whole buffer as UTF-8. When the first code unit
  of the text is \<open>{\<close> or \<open>[\<close> and \<open>JSON.parse\<close> of the whole text returns \<open>v\<close>, the result
  is \<open>Structured v\<close>, also after the fallback of the caller. When the text is empty or
  starts with another code unit, so that no parse is attempted, or when \<open>JSON.parse\<close> of
  the text throws, the result is \<open>Opaque\<close> with the input bytes; and it is still that
  after the fallback of the caller when the regular expression selects nothing or
  \<open>JSON.parse\<close> of the selected substring throws. No exception leaves the function,
  whatever \<open>JSON.parse\<close> throws, and an \<open>Opaque\<close> result always holds the input bytes
  unchanged. With the reference \<open>JSON.parse\<close>: the UTF-8 bytes of \<open>{"a":1}\<close> give
  \<open>Structured {a: 1}\<close>; the bytes \<open>FF 00 10\<close> give \<open>Opaque\<close> with these three bytes; the
  bytes of \<open>123\<close>, which \<open>JSON.parse\<close> accepts, give \<open>Opaque\<close> because the text does not
  start with a bracket; and the bytes \<open>7B 22 6B 22 3A 22 E7 8C AB 22 7D\<close> give the object
  whose member \<open>k\<close> is the single code unit U+732B, the three bytes \<open>E7 8C AB\<close> decoded
  as UTF-8.
\<close>

theorem decodeIndexedDbValue_whole_buffer:
  "((take 1 (toString_utf8 valueBuffer) = [0x7B] \<or> take 1 (toString_utf8 valueBuffer) = [0x5B])
      \<and> JSON_parse (toString_utf8 valueBuffer) = Inr v \<longrightarrow>
        decodeIndexedDbValue JSON_parse valueBuffer = Structured v \<and>
        decode_value JSON_parse valueBuffer = Structured v) \<and>
   ((take 1 (toString_utf8 valueBuffer) \<noteq> [0x7B] \<and> take 1 (toString_utf8 valueBuffer) \<noteq> [0x5B])
      \<or> (\<exists>e. JSON_parse (toString_utf8 valueBuffer) = Inl e) \<longrightarrow>
        decodeIndexedDbValue JSON_parse valueBuffer = Opaque valueBuffer) \<and>
   (((take 1 (toString_utf8 valueBuffer) \<noteq> [0x7B] \<and> take 1 (toString_utf8 valueBuffer) \<noteq> [0x5B])
       \<or> (\<exists>e. JSON_parse (toString_utf8 valueBuffer) = Inl e))
      \<and> (regex_match (toString_utf8 valueBuffer) = None
           \<or> (\<exists>m e. regex_match (toString_utf8 valueBuffer) = Some m \<and> JSON_parse m = Inl e)) \<longrightarrow>
        decode_value JSON_parse valueBuffer = Opaque valueBuffer) \<and>
   (\<exists>d. decodeIndexedDbValue_body JSON_parse valueBuffer = Inr d) \<and>
   (\<forall>buf. decodeIndexedDbValue JSON_parse valueBuffer = Opaque buf \<longrightarrow> buf = valueBuffer) \<and>
   (\<forall>buf. decode_value JSON_parse valueBuffer = Opaque buf \<longrightarrow> buf = valueBuffer) \<and>
   decodeIndexedDbValue JSON_parse_ref [0x7B, 0x22, 0x61, 0x22, 0x3A, 0x31, 0x7D]
     = Structured (JObject [([0x61], JNumber 1)]) \<and>
   decode_value JSON_parse_ref [0x7B, 0x22, 0x61, 0x22, 0x3A, 0x31, 0x7D]
     = Structured (JObject [([0x61], JNumber 1)]) \<and>
   decodeIndexedDbValue JSON_parse_ref [0xFF, 0x00, 0x10] = Opaque [0xFF, 0x00, 0x10] \<and>
   decode_value JSON_parse_ref [0xFF, 0x00, 0x10] = Opaque [0xFF, 0x00, 0x10] \<and>
   JSON_parse_ref (toString_utf8 [0x31, 0x32, 0x33]) = Inr (JNumber 123) \<and>
   decodeIndexedDbValue JSON_parse_ref [0x31, 0x32, 0x33] = Opaque [0x31, 0x32, 0x33] \<and>
   decode_value JSON_parse_ref [0x31, 0x32, 0x33] = Opaque [0x31, 0x32, 0x33] \<and>
   decodeIndexedDbValue JSON_parse_ref [0x7B, 0x22, 0x6B, 0x22, 0x3A, 0x22, 0xE7, 0x8C, 0xAB, 0x22, 0x7D]
     = Structured (JObject [([0x6B], JString [0x732B])])"
proof -
  let ?text = "toString_utf8 valueBuffer"
  have a: "decodeIndexedDbValue JSON_parse valueBuffer = Structured v \<and>
        decode_value JSON_parse valueBuffer = Structured v"
    if "take 1 ?text = [0x7B] \<or> take 1 ?text = [0x5B]" and "JSON_parse ?text = Inr v"
  proof -
    have "decodeIndexedDbValue JSON_parse valueBuffer = Structured v"
      using that by (simp add: decodeIndexedDbValue_first_unit)
    then show ?thesis by (simp add: decode_value_Structured)
  qed
  have b: "decodeIndexedDbValue JSON_parse valueBuffer = Opaque valueBuffer"
    if "(take 1 ?text \<noteq> [0x7B] \<and> take 1 ?text \<noteq> [0x5B]) \<or> (\<exists>e. JSON_parse ?text = Inl e)"
    using that by (auto simp: decodeIndexedDbValue_first_unit)
  have c: "decode_value JSON_parse valueBuffer = Opaque valueBuffer"
    if "((take 1 ?text \<noteq> [0x7B] \<and> take 1 ?text \<noteq> [0x5B]) \<or> (\<exists>e. JSON_parse ?text = Inl e))
      \<and> (regex_match ?text = None \<or> (\<exists>m e. regex_match ?text = Some m \<and> JSON_parse m = Inl e))"
    using that b decode_value_fallback_fails[of JSON_parse valueBuffer] by blast
  have c1: "decodeIndexedDbValue JSON_parse_ref [0x7B, 0x22, 0x61, 0x22, 0x3A, 0x31, 0x7D]
     = Structured (JObject [([0x61], JNumber 1)])"
    by (simp add: value_eval utf8_eval)
  have c2: "decode_value JSON_parse_ref [0x7B, 0x22, 0x61, 0x22, 0x3A, 0x31, 0x7D]
     = Structured (JObject [([0x61], JNumber 1)])"
    by (simp add: value_eval utf8_eval)
  have c3: "decodeIndexedDbValue JSON_parse_ref [0xFF, 0x00, 0x10] = Opaque [0xFF, 0x00, 0x10]"
    by (simp add: value_eval utf8_eval)
  have c4: "decode_value JSON_parse_ref [0xFF, 0x00, 0x10] = Opaque [0xFF, 0x00, 0x10]"
    by (simp add: value_eval utf8_eval)
  have c5: "JSON_parse_ref (toString_utf8 [0x31, 0x32, 0x33]) = Inr (JNumber 123)"
    by (simp add: value_eval utf8_eval)
  have c6: "decodeIndexedDbValue JSON_parse_ref [0x31, 0x32, 0x33] = Opaque [0x31, 0x32, 0x33]"
    by (simp add: value_eval utf8_eval)
  have c7: "decode_value JSON_parse_ref [0x31, 0x32, 0x33] = Opaque [0x31, 0x32, 0x33]"
    by (simp add: value_eval utf8_eval)
  have c8: "decodeIndexedDbValue JSON_parse_ref
       [0x7B, 0x22, 0x6B, 0x22, 0x3A, 0x22, 0xE7, 0x8C, 0xAB, 0x22, 0x7D]
     = Structured (JObject [([0x6B], JString [0x732B])])"
    by (simp add: value_eval utf8_eval is_cont_def second_of3_def point3_def)
  show ?thesis
    using a b c decodeIndexedDbValue_body_no_throw[of JSON_parse valueBuffer]
      decodeIndexedDbValue_Opaque[of JSON_parse valueBuffer]
      decode_value_Opaque[of JSON_parse valueBuffer] c1 c2 c3 c4 c5 c6 c7 c8
    by blast
qed

theorem decodeIndexedDbValue_whole_buffer_witness:
  "take 1 (toString_utf8 [0x5B, 0x31, 0x5D]) = [0x5B] \<and>
   JSON_parse_ref (toString_utf8 [0x5B, 0x31, 0x5D]) = Inr (JArray [JNumber 1]) \<and>
   decodeIndexedDbValue JSON_parse_ref [0x5B, 0x31, 0x5D] = Structured (JArray [JNumber 1]) \<and>
   decode_value JSON_parse_ref [0x5B, 0x31, 0x5D] = Structured (JArray [JNumber 1]) \<and>
   take 1 (toString_utf8 [0x7B, 0x78]) = [0x7B] \<and>
   JSON_parse_ref (toString_utf8 [0x7B, 0x78]) = Inl SyntaxError \<and>
   regex_match (toString_utf8 [0x7B, 0x78]) = None \<and>
   decodeIndexedDbValue JSON_parse_ref [0x7B, 0x78] = Opaque [0x7B, 0x78] \<and>
   decode_value JSON_parse_ref [0x7B, 0x78] = Opaque [0x7B, 0x78] \<and>
   take 1 (toString_utf8 [0x78, 0x7B, 0x79, 0x7D]) = [0x78] \<and>
   regex_match (toString_utf8 [0x78, 0x7B, 0x79, 0x7D]) = Some [0x7B, 0x79, 0x7D] \<and>
   JSON_parse_ref [0x7B, 0x79, 0x7D] = Inl SyntaxError \<and>
   decodeIndexedDbValue JSON_parse_ref [0x78, 0x7B, 0x79, 0x7D] = Opaque [0x78, 0x7B, 0x79, 0x7D] \<and>
   decode_value JSON_parse_ref [0x78, 0x7B, 0x79, 0x7D] = Opaque [0x78, 0x7B, 0x79, 0x7D]"
proof -
  have s1: "take 1 (toString_utf8 [0x5B, 0x31, 0x5D]) = [0x5B]"
    by (simp add: utf8_eval)
  have p1: "JSON_parse_ref (toString_utf8 [0x5B, 0x31, 0x5D]) = Inr (JArray [JNumber 1])"
    by (simp add: value_eval utf8_eval)
  have s2: "take 1 (toString_utf8 [0x7B, 0x78]) = [0x7B]"
    by (simp add: utf8_eval)
  have p2: "JSON_parse_ref (toString_utf8 [0x7B, 0x78]) = Inl SyntaxError"
    by (simp add: value_eval utf8_eval)
  have r2: "regex_match (toString_utf8 [0x7B, 0x78]) = None"
    by (simp add: value_eval utf8_eval)
  have s3: "take 1 (toString_utf8 [0x78, 0x7B, 0x79, 0x7D]) = [0x78]"
    by (simp add: utf8_eval)
  have r3: "regex_match (toString_utf8 [0x78, 0x7B, 0x79, 0x7D]) = Some [0x7B, 0x79, 0x7D]"
    by (simp add: value_eval utf8_eval)
  have p3: "JSON_parse_ref [0x7B, 0x79, 0x7D] = Inl SyntaxError"
    by (simp add: value_eval utf8_eval)
  note t1 = decodeIndexedDbValue_whole_buffer[of "[0x5B, 0x31, 0x5D]" JSON_parse_ref "JArray [JNumber 1]"]
  note t2 = decodeIndexedDbValue_whole_buffer[of "[0x7B, 0x78]" JSON_parse_ref "JNull"]
  note t3 = decodeIndexedDbValue_whole_buffer[of "[0x78, 0x7B, 0x79, 0x7D]" JSON_parse_ref "JNull"]
  have a1: "decodeIndexedDbValue JSON_parse_ref [0x5B, 0x31, 0x5D] = Structured (JArray [JNumber 1]) \<and>
      decode_value JSON_parse_ref [0x5B, 0x31, 0x5D] = Structured (JArray [JNumber 1])"
    using t1[THEN conjunct1] s1 p1 by simp
  have a2: "decodeIndexedDbValue JSON_parse_ref [0x7B, 0x78] = Opaque [0x7B, 0x78]"
    using t2[THEN conjunct2, THEN conjunct1] p2 by simp
  have b2: "decode_value JSON_parse_ref [0x7B, 0x78] = Opaque [0x7B, 0x78]"
    using t2[THEN conjunct2, THEN conjunct2, THEN conjunct1] p2 r2 by simp
  have a3: "decodeIndexedDbValue JSON_parse_ref [0x78, 0x7B, 0x79, 0x7D] = Opaque [0x78, 0x7B, 0x79, 0x7D]"
    using t3[THEN conjunct2, THEN conjunct1] s3 by simp
  have b3: "decode_value JSON_parse_ref [0x78, 0x7B, 0x79, 0x7D] = Opaque [0x78, 0x7B, 0x79, 0x7D]"
    using t3[THEN conjunct2, THEN conjunct2, THEN conjunct1] s3 r3 p3 by simp
  show ?thesis
    using s1 p1 s2 p2 r2 s3 r3 p3 a1 a2 b2 a3 b3 by simp
qed

text \<open>
  C5, as amended. Whenever \<open>decodeIndexedDbValue\<close> hands back the buffer, which it does
  in particular when \<open>JSON.parse\<close> of the whole text throws, the caller searches the text
  with the regular expression. What it selects is not a balanced substring and need not
  be the JSON object or array that the text contains: the match, when there is one, is a
  bracketed substring (an opening bracket, the rest of its line up to the last closing
  bracket of the same kind), it starts at the first position of the text where a
  bracketed string starts and is the longest bracketed string there. When \<open>JSON.parse\<close>
  of the match returns \<open>v\<close> the result is \<open>Structured v\<close>, the content of the match alone;
  when it throws, or when the text has no bracketed substring, the result is the buffer.
\<close>

theorem extract_json_first_bracketed:
  "((\<exists>e. JSON_parse (toString_utf8 valueBuffer) = Inl e) \<longrightarrow>
      decodeIndexedDbValue JSON_parse valueBuffer = Opaque valueBuffer) \<and>
   (decodeIndexedDbValue JSON_parse valueBuffer = Opaque valueBuffer \<longrightarrow>
     (case regex_match (toString_utf8 valueBuffer) of
        None \<Rightarrow>
          decode_value JSON_parse valueBuffer = Opaque valueBuffer \<and>
          (\<forall>j m'. prefix m' (drop j (toString_utf8 valueBuffer)) \<longrightarrow> \<not> bracketed m')
      | Some m \<Rightarrow>
          (\<exists>i. prefix m (drop i (toString_utf8 valueBuffer)) \<and> bracketed m \<and>
               (\<forall>j m'. j < i \<and> prefix m' (drop j (toString_utf8 valueBuffer)) \<longrightarrow> \<not> bracketed m') \<and>
               (\<forall>m'. prefix m' (drop i (toString_utf8 valueBuffer)) \<and> bracketed m' \<longrightarrow> prefix m' m)) \<and>
          (\<forall>v. JSON_parse m = Inr v \<longrightarrow> decode_value JSON_parse valueBuffer = Structured v) \<and>
          (\<forall>e. JSON_parse m = Inl e \<longrightarrow> decode_value JSON_parse valueBuffer = Opaque valueBuffer)))"
proof (intro conjI impI)
  assume "\<exists>e. JSON_parse (toString_utf8 valueBuffer) = Inl e"
  then show "decodeIndexedDbValue JSON_parse valueBuffer = Opaque valueBuffer"
    by (auto simp: decodeIndexedDbValue_cases)
next
  assume o: "decodeIndexedDbValue JSON_parse valueBuffer = Opaque valueBuffer"
  show "case regex_match (toString_utf8 valueBuffer) of
        None \<Rightarrow>
          decode_value JSON_parse valueBuffer = Opaque valueBuffer \<and>
          (\<forall>j m'. prefix m' (drop j (toString_utf8 valueBuffer)) \<longrightarrow> \<not> bracketed m')
      | Some m \<Rightarrow>
          (\<exists>i. prefix m (drop i (toString_utf8 valueBuffer)) \<and> bracketed m \<and>
               (\<forall>j m'. j < i \<and> prefix m' (drop j (toString_utf8 valueBuffer)) \<longrightarrow> \<not> bracketed m') \<and>
               (\<forall>m'. prefix m' (drop i (toString_utf8 valueBuffer)) \<and> bracketed m' \<longrightarrow> prefix m' m)) \<and>
          (\<forall>v. JSON_parse m = Inr v \<longrightarrow> decode_value JSON_parse valueBuffer = Structured v) \<and>
          (\<forall>e. JSON_parse m = Inl e \<longrightarrow> decode_value JSON_parse valueBuffer = Opaque valueBuffer)"
  proof (cases "regex_match (toString_utf8 valueBuffer)")
    case None
    have "decode_value JSON_parse valueBuffer = Opaque valueBuffer"
      by (simp add: decode_value_def extract_json_def o None)
    moreover have "\<forall>j m'. prefix m' (drop j (toString_utf8 valueBuffer)) \<longrightarrow> \<not> bracketed m'"
      using regex_match_None[OF None] by blast
    ultimately show ?thesis by (simp add: None)
  next
    case (Some m)
    have "\<forall>v. JSON_parse m = Inr v \<longrightarrow> decode_value JSON_parse valueBuffer = Structured v"
      by (simp add: decode_value_def extract_json_def o Some)
    moreover have "\<forall>e. JSON_parse m = Inl e \<longrightarrow> decode_value JSON_parse valueBuffer = Opaque valueBuffer"
      by (simp add: decode_value_def extract_json_def o Some)
    ultimately show ?thesis using regex_match_Some[OF Some] by (simp add: Some)
  qed
qed

theorem extract_json_first_bracketed_witness:
  "decodeIndexedDbValue JSON_parse_ref [0xFF, 0x01, 0x7B, 0x22, 0x61, 0x22, 0x3A, 0x31, 0x7D, 0x00]
     = Opaque [0xFF, 0x01, 0x7B, 0x22, 0x61, 0x22, 0x3A, 0x31, 0x7D, 0x00] \<and>
   toString_utf8 [0xFF, 0x01, 0x7B, 0x22, 0x61, 0x22, 0x3A, 0x31, 0x7D, 0x00]
     = [0xFFFD, 0x01, 0x7B, 0x22, 0x61, 0x22, 0x3A, 0x31, 0x7D, 0x00] \<and>
   regex_match [0xFFFD, 0x01, 0x7B, 0x22, 0x61, 0x22, 0x3A, 0x31, 0x7D, 0x00]
     = Some [0x7B, 0x22, 0x61, 0x22, 0x3A, 0x31, 0x7D] \<and>
   JSON_parse_ref [0x7B, 0x22, 0x61, 0x22, 0x3A, 0x31, 0x7D] = Inr (JObject [([0x61], JNumber 1)]) \<and>
   decode_value JSON_parse_ref [0xFF, 0x01, 0x7B, 0x22, 0x61, 0x22, 0x3A, 0x31, 0x7D, 0x00]
     = Structured (JObject [([0x61], JNumber 1)])"
proof -
  let ?buf = "[0xFF, 0x01, 0x7B, 0x22, 0x61, 0x22, 0x3A, 0x31, 0x7D, 0x00] :: buffer"
  let ?m = "[0x7B, 0x22, 0x61, 0x22, 0x3A, 0x31, 0x7D] :: js_string"
  have h: "decodeIndexedDbValue JSON_parse_ref ?buf = Opaque ?buf"
    by (simp add: value_eval utf8_eval)
  have s: "toString_utf8 ?buf = [0xFFFD, 0x01, 0x7B, 0x22, 0x61, 0x22, 0x3A, 0x31, 0x7D, 0x00]"
    by (simp add: utf8_eval)
  have m: "regex_match [0xFFFD, 0x01, 0x7B, 0x22, 0x61, 0x22, 0x3A, 0x31, 0x7D, 0x00] = Some ?m"
    by (simp add: value_eval utf8_eval)
  have p: "JSON_parse_ref ?m = Inr (JObject [([0x61], JNumber 1)])"
    by (simp add: value_eval utf8_eval)
  note t = extract_json_first_bracketed[of JSON_parse_ref ?buf, THEN conjunct2, THEN mp, OF h,
      unfolded s m option.case]
  from t p have "decode_value JSON_parse_ref ?buf = Structured (JObject [([0x61], JNumber 1)])"
    by blast
  with h s m p show ?thesis by simp
qed

text \<open>
  C5 as stated fails. The text \<open>x[1] [2]\<close> is not JSON as a whole and contains the JSON
  array \<open>[1]\<close>, its first balanced substring; the regular expression selects
  \<open>[1] [2]\<close>, up to the last \<open>]\<close> of the line, \<open>JSON.parse\<close> of which throws, and the
  result is the buffer. The text of the bytes \<open>01 7B 0A 7D\<close> is not JSON as a whole and
  contains the JSON object \<open>{\<close>, line feed, \<open>}\<close>; the regular expression selects nothing,
  since \<open>.\<close> does not match the line feed, and the result is the buffer.
\<close>

theorem extract_json_contained_counterexample:
  "toString_utf8 [0x78, 0x5B, 0x31, 0x5D, 0x20, 0x5B, 0x32, 0x5D]
     = [0x78, 0x5B, 0x31, 0x5D, 0x20, 0x5B, 0x32, 0x5D] \<and>
   JSON_parse_ref [0x78, 0x5B, 0x31, 0x5D, 0x20, 0x5B, 0x32, 0x5D] = Inl SyntaxError \<and>
   take 3 (drop 1 [0x78, 0x5B, 0x31, 0x5D, 0x20, 0x5B, 0x32, 0x5D]) = [0x5B, 0x31, 0x5D :: nat] \<and>
   JSON_parse_ref [0x5B, 0x31, 0x5D] = Inr (JArray [JNumber 1]) \<and>
   regex_match [0x78, 0x5B, 0x31, 0x5D, 0x20, 0x5B, 0x32, 0x5D]
     = Some [0x5B, 0x31, 0x5D, 0x20, 0x5B, 0x32, 0x5D] \<and>
   JSON_parse_ref [0x5B, 0x31, 0x5D, 0x20, 0x5B, 0x32, 0x5D] = Inl SyntaxError \<and>
   decode_value JSON_parse_ref [0x78, 0x5B, 0x31, 0x5D, 0x20, 0x5B, 0x32, 0x5D]
     = Opaque [0x78, 0x5B, 0x31, 0x5D, 0x20, 0x5B, 0x32, 0x5D] \<and>
   toString_utf8 [0x01, 0x7B, 0x0A, 0x7D] = [0x01, 0x7B, 0x0A, 0x7D] \<and>
   JSON_parse_ref [0x01, 0x7B, 0x0A, 0x7D] = Inl SyntaxError \<and>
   drop 1 [0x01, 0x7B, 0x0A, 0x7D] = [0x7B, 0x0A, 0x7D :: nat] \<and>
   JSON_parse_ref [0x7B, 0x0A, 0x7D] = Inr (JObject []) \<and>
   regex_match [0x01, 0x7B, 0x0A, 0x7D] = None \<and>
   decode_value JSON_parse_ref [0x01, 0x7B, 0x0A, 0x7D] = Opaque [0x01, 0x7B, 0x0A, 0x7D]"
  by (simp add: value_eval utf8_eval)

section \<open>Properties of the schema map and of the scan\<close>

lemma getObjectStoreName_None_iff:
  "getObjectStoreName storeId = None \<longleftrightarrow> storeId < 1 \<or> 7 < storeId"
proof -
  have "getObjectStoreName storeId = None \<longleftrightarrow> storeId \<notin> {1, 2, 3, 4, 5, 6, 7}"
    by (simp add: getObjectStoreName_def mapping_def)
  also have "\<dots> \<longleftrightarrow> storeId < 1 \<or> 7 < storeId" by auto
  finally show ?thesis .
qed

lemma getObjectStoreName_objectStores:
  "getObjectStoreName storeId = Some storeName \<Longrightarrow> storeName \<in> set objectStores"
  by (auto simp: getObjectStoreName_def mapping_def objectStores_def split: if_splits)

lemma scan_entry_unmapped:
  assumes "parseIndexedDbKey keyBuffer = Some parsed"
    and "getObjectStoreName (objectStoreId parsed) = None"
  shows "scan_entry JSON_parse st (keyBuffer, valueBuffer) = st\<lparr>totalEntries := totalEntries st + 1\<rparr>"
  using assms by (simp add: scan_entry_def Let_def)

lemma scan_entry_totalEntries:
  "totalEntries (scan_entry JSON_parse st kv) = totalEntries st + 1"
  by (simp add: scan_entry_def Let_def split: option.split)

lemma scan_entry_names:
  "map fst (entriesByStore (scan_entry JSON_parse st kv)) = map fst (entriesByStore st)"
  by (auto simp: scan_entry_def Let_def push_entry_def split: option.split)

lemma scan_entry_shift:
  "scan_entry JSON_parse (st\<lparr>totalEntries := n\<rparr>) kv =
   (scan_entry JSON_parse st kv)\<lparr>totalEntries := n + 1\<rparr>"
  by (simp add: scan_entry_def Let_def split: option.split)

lemma foldl_scan_entry_shift:
  "foldl (scan_entry JSON_parse) (st\<lparr>totalEntries := n\<rparr>) src =
   (foldl (scan_entry JSON_parse) st src)\<lparr>totalEntries := n + length src\<rparr>"
proof (induction src arbitrary: st n)
  case Nil
  show ?case by simp
next
  case (Cons kv src)
  show ?case
    using Cons.IH[where st = "scan_entry JSON_parse st kv" and n = "n + 1"]
    by (simp add: scan_entry_shift)
qed

lemma foldl_scan_entry_totalEntries:
  "totalEntries (foldl (scan_entry JSON_parse) st src) = totalEntries st + length src"
  by (induction src arbitrary: st) (simp_all add: scan_entry_totalEntries)

lemma scan_source_totalEntries:
  "totalEntries (scan_source JSON_parse src) = length src"
  by (simp add: scan_source_def foldl_scan_entry_totalEntries initial_scan_def)

text \<open>
  C6. \<open>getObjectStoreName\<close> returns a name exactly for the ids 1 to 7, the seven names of
  the table, and \<open>null\<close> for every other integer. In the scan an entry whose store id
  has no name raises nothing: it only increments \<open>totalEntries\<close>, and the scan goes on
  with the entries after it, all of which are counted.
\<close>

theorem getObjectStoreName_exact:
  "getObjectStoreName 1 = Some ''dictionaries'' \<and>
   getObjectStoreName 2 = Some ''terms'' \<and>
   getObjectStoreName 3 = Some ''kanji'' \<and>
   getObjectStoreName 4 = Some ''termMeta'' \<and>
   getObjectStoreName 5 = Some ''kanjiMeta'' \<and>
   getObjectStoreName 6 = Some ''tagMeta'' \<and>
   getObjectStoreName 7 = Some ''media'' \<and>
   (getObjectStoreName storeId = None \<longleftrightarrow> storeId < 1 \<or> 7 < storeId) \<and>
   (parseIndexedDbKey keyBuffer = Some parsed \<and> getObjectStoreName (objectStoreId parsed) = None \<longrightarrow>
      scan_entry JSON_parse st (keyBuffer, valueBuffer) = st\<lparr>totalEntries := totalEntries st + 1\<rparr> \<and>
      scan_source JSON_parse (before @ (keyBuffer, valueBuffer) # after) =
        foldl (scan_entry JSON_parse)
          ((scan_source JSON_parse before)\<lparr>totalEntries := length before + 1\<rparr>) after \<and>
      totalEntries (scan_source JSON_parse (before @ (keyBuffer, valueBuffer) # after)) =
        length before + 1 + length after)"
proof -
  have names: "getObjectStoreName 1 = Some ''dictionaries''" "getObjectStoreName 2 = Some ''terms''"
    "getObjectStoreName 3 = Some ''kanji''" "getObjectStoreName 4 = Some ''termMeta''"
    "getObjectStoreName 5 = Some ''kanjiMeta''" "getObjectStoreName 6 = Some ''tagMeta''"
    "getObjectStoreName 7 = Some ''media''"
    by (simp_all add: getObjectStoreName_def mapping_def)
  have skip: "scan_entry JSON_parse st (keyBuffer, valueBuffer) = st\<lparr>totalEntries := totalEntries st + 1\<rparr> \<and>
      scan_source JSON_parse (before @ (keyBuffer, valueBuffer) # after) =
        foldl (scan_entry JSON_parse)
          ((scan_source JSON_parse before)\<lparr>totalEntries := length before + 1\<rparr>) after \<and>
      totalEntries (scan_source JSON_parse (before @ (keyBuffer, valueBuffer) # after)) =
        length before + 1 + length after"
    if p: "parseIndexedDbKey keyBuffer = Some parsed"
      and n: "getObjectStoreName (objectStoreId parsed) = None"
  proof -
    have 1: "scan_entry JSON_parse st' (keyBuffer, valueBuffer) = st'\<lparr>totalEntries := totalEntries st' + 1\<rparr>" for st'
      by (rule scan_entry_unmapped[OF p n])
    have 2: "scan_source JSON_parse (before @ (keyBuffer, valueBuffer) # after) =
        foldl (scan_entry JSON_parse)
          ((scan_source JSON_parse before)\<lparr>totalEntries := length before + 1\<rparr>) after"
      using scan_source_totalEntries[of JSON_parse before]
      by (simp add: scan_source_def 1)
    show ?thesis using 1[of st] 2 by (simp add: foldl_scan_entry_totalEntries)
  qed
  show ?thesis
    using names getObjectStoreName_None_iff[of storeId] skip by blast
qed

text \<open>The equations that evaluate the scan and the run on concrete entries.\<close>

lemmas scan_eval = scan_source_def scan_entry_def initial_scan_def objectStores_def push_entry_def
  getObjectStoreName_def mapping_def

theorem getObjectStoreName_exact_witness:
  "parseIndexedDbKey [0, 9, 0, 1] =
     Some \<lparr>databaseId = 0, objectStoreId = 9, indexId = 0, userKey = KText [1]\<rparr> \<and>
   getObjectStoreName 9 = None \<and>
   scan_entry JSON_parse_ref initial_scan ([0, 9, 0, 1], [0x31]) = initial_scan\<lparr>totalEntries := 1\<rparr> \<and>
   totalEntries (scan_source JSON_parse_ref
      ([([0, 2, 0, 0x74, 0x31], [0x5B, 0x5D])] @ ([0, 9, 0, 1], [0x31]) # [([0, 2, 0, 0x74, 0x32], [0x5B, 0x5D])])) = 3"
proof -
  have p: "parseIndexedDbKey [0, 9, 0, 1] =
     Some \<lparr>databaseId = 0, objectStoreId = 9, indexId = 0, userKey = KText [1]\<rparr>"
    by (simp add: key_eval utf8_eval)
  have n: "getObjectStoreName (objectStoreId \<lparr>databaseId = 0, objectStoreId = 9, indexId = 0, userKey = KText [1]\<rparr>) = None"
    by (simp add: getObjectStoreName_def mapping_def)
  note t = getObjectStoreName_exact[of 9 "[0, 9, 0, 1]"
        "\<lparr>databaseId = 0, objectStoreId = 9, indexId = 0, userKey = KText [1]\<rparr>"
        JSON_parse_ref initial_scan "[0x31]" "[([0, 2, 0, 0x74, 0x31], [0x5B, 0x5D])]"
        "[([0, 2, 0, 0x74, 0x32], [0x5B, 0x5D])]"]
  note rc = t[THEN conjunct2, THEN conjunct2, THEN conjunct2, THEN conjunct2, THEN conjunct2,
      THEN conjunct2, THEN conjunct2, THEN conjunct2, THEN mp, OF conjI[OF p n]]
  note r = rc[THEN conjunct1]
  note c = rc[THEN conjunct2, THEN conjunct2]
  have "totalEntries (initial_scan :: json scan_state) = 0" by (simp add: initial_scan_def)
  with r c p n show ?thesis by simp
qed

section \<open>Properties of the migration\<close>

text \<open>
  C7. When \<open>getIndexedDbPath\<close> returns \<open>null\<close> or a path that does not exist, the call
  resolves with \<open>false\<close>: nothing is thrown, nothing is scanned, nothing is written and
  no entry is synced.
\<close>

theorem syncEdgeIndexedDb_missing_source:
  "indexedDbPath env = Inr path \<Longrightarrow>
   path = None \<or> (\<exists>p. path = Some p \<and> \<not> existsSync env p) \<Longrightarrow>
   syncEdgeIndexedDb JSON_parse env =
     \<lparr>outcome = Resolved False, scanned = None, synced = 0, events = []\<rparr>"
  by (auto simp: syncEdgeIndexedDb_def not_started_def)

theorem syncEdgeIndexedDb_missing_source_witness:
  "syncEdgeIndexedDb JSON_parse_ref
     \<lparr>indexedDbPath = Inr None, existsSync = (\<lambda>p. True), level_module = LevelClass,
      level_opens = True, classic_level_opens = True,
      source = [([0, 2, 0, 0x74, 0x31], [0x5B, 0x5D])], source_throws = False, idb_opens = True,
      idb = \<lparr>tx_opens = (\<lambda>s. True), write_throws = (\<lambda>s i w. False), tx_outcome = (\<lambda>s. TxComplete)\<rparr>\<rparr>
     = \<lparr>outcome = Resolved False, scanned = None, synced = 0, events = []\<rparr> \<and>
   syncEdgeIndexedDb JSON_parse_ref
     \<lparr>indexedDbPath = Inr (Some ''C:/missing.leveldb''), existsSync = (\<lambda>p. False), level_module = LevelClass,
      level_opens = True, classic_level_opens = True,
      source = [([0, 2, 0, 0x74, 0x31], [0x5B, 0x5D])], source_throws = False, idb_opens = True,
      idb = \<lparr>tx_opens = (\<lambda>s. True), write_throws = (\<lambda>s i w. False), tx_outcome = (\<lambda>s. TxComplete)\<rparr>\<rparr>
     = \<lparr>outcome = Resolved False, scanned = None, synced = 0, events = []\<rparr>"
  using syncEdgeIndexedDb_missing_source[of
      "\<lparr>indexedDbPath = Inr None, existsSync = (\<lambda>p. True), level_module = LevelClass,
      level_opens = True, classic_level_opens = True,
      source = [([0, 2, 0, 0x74, 0x31], [0x5B, 0x5D])], source_throws = False, idb_opens = True,
      idb = \<lparr>tx_opens = (\<lambda>s. True), write_throws = (\<lambda>s i w. False), tx_outcome = (\<lambda>s. TxComplete)\<rparr>\<rparr>"
      None JSON_parse_ref]
    syncEdgeIndexedDb_missing_source[of
      "\<lparr>indexedDbPath = Inr (Some ''C:/missing.leveldb''), existsSync = (\<lambda>p. False), level_module = LevelClass,
      level_opens = True, classic_level_opens = True,
      source = [([0, 2, 0, 0x74, 0x31], [0x5B, 0x5D])], source_throws = False, idb_opens = True,
      idb = \<lparr>tx_opens = (\<lambda>s. True), write_throws = (\<lambda>s i w. False), tx_outcome = (\<lambda>s. TxComplete)\<rparr>\<rparr>"
      "Some ''C:/missing.leveldb''" JSON_parse_ref]
  by simp

subsection \<open>The write loop\<close>

text \<open>The event of one \<open>put\<close>/\<open>add\<close> and whether it counts.\<close>

lemma write_entries_eq:
  "write_entries tgt storeName i entries (syncedCount, trace) =
     (syncedCount + length (filter (\<lambda>(k, e). \<not> write_throws tgt storeName k (write_op_of e))
                                   (zip [i ..< i + length entries] entries)),
      trace @ map (\<lambda>(k, e). if write_throws tgt storeName k (write_op_of e)
                              then WriteThrew storeName (write_op_of e)
                              else Wrote storeName (write_op_of e))
                  (zip [i ..< i + length entries] entries))"
proof (induction entries arbitrary: i syncedCount trace)
  case Nil
  show ?case by simp
next
  case (Cons e entries)
  have u: "[i ..< i + length (e # entries)] = i # [i + 1 ..< i + 1 + length entries]"
    by (subst upt_rec) simp
  show ?case
    unfolding u
    by (simp add: Cons.IH)
qed

text \<open>
  C9, as amended. For a non-empty buffer whose transaction opens, the loop attempts the
  \<open>put\<close> or \<open>add\<close> of every entry, in order, whether or not earlier ones threw: the
  events are one per entry. An entry whose \<open>put\<close>/\<open>add\<close> throws is caught in the loop
  and is not counted in \<open>syncedCount\<close>; every entry whose \<open>put\<close>/\<open>add\<close> returns is
  counted, whatever becomes of its request and of the transaction afterwards; and the
  completion of the transaction is awaited after the last entry.
\<close>

theorem write_failure_tolerance:
  "entries \<noteq> [] \<Longrightarrow> tx_opens tgt storeName \<Longrightarrow>
   sync_store tgt (syncedCount, trace, Running) (storeName, entries) =
     (syncedCount + length (filter (\<lambda>(k, e). \<not> write_throws tgt storeName k (write_op_of e))
                                   (zip [0 ..< length entries] entries)),
      trace @ [TxOpened storeName]
        @ map (\<lambda>(k, e). if write_throws tgt storeName k (write_op_of e)
                          then WriteThrew storeName (write_op_of e)
                          else Wrote storeName (write_op_of e))
              (zip [0 ..< length entries] entries)
        @ [TxAwaited storeName],
      after_await (tx_outcome tgt storeName))"
  by (simp add: sync_store_def write_entries_eq)

theorem write_failure_tolerance_witness:
  "sync_store
     \<lparr>tx_opens = (\<lambda>s. True), write_throws = (\<lambda>s i w. i = 1), tx_outcome = (\<lambda>s. TxComplete)\<rparr>
     (0, [], Running)
     (''terms'', [\<lparr>entry_key = KText [0x61], entry_value = Structured JNull\<rparr>,
                  \<lparr>entry_key = KNull, entry_value = Structured (JBool True)\<rparr>,
                  \<lparr>entry_key = KText [0x62], entry_value = Opaque [1]\<rparr>]) =
     (2,
      [TxOpened ''terms'',
       Wrote ''terms'' (Put (Structured JNull) (KText [0x61])),
       WriteThrew ''terms'' (Add (Structured (JBool True))),
       Wrote ''terms'' (Put (Opaque [1]) (KText [0x62])),
       TxAwaited ''terms''],
      Running)"
  using write_failure_tolerance[of
      "[\<lparr>entry_key = KText [0x61], entry_value = Structured JNull\<rparr>,
        \<lparr>entry_key = KNull, entry_value = Structured (JBool True)\<rparr>,
        \<lparr>entry_key = KText [0x62], entry_value = Opaque [1]\<rparr>]"
      "\<lparr>tx_opens = (\<lambda>s. True), write_throws = (\<lambda>s i w. i = 1), tx_outcome = (\<lambda>s. TxComplete)\<rparr>"
      "''terms''" 0 "[]"]
  by (simp add: write_op_of_def after_await_def upt_conv_Cons)

text \<open>
  C9 as stated fails for a \<open>put\<close>/\<open>add\<close> that fails without throwing. The source holds
  two entries of store 2 and one of store 3; both \<open>put\<close> calls on \<open>terms\<close> return, the
  request of one of them fails, and its error event reaches \<open>onerror\<close> of the transaction
  (\<open>TxError None\<close>). No failure is caught in the loop over the entries: both entries are
  counted, the failed one too. The rejection is caught by the \<open>catch\<close> of the store, and
  from there the call resolves with \<open>false\<close> without opening a transaction on \<open>kanji\<close>.
\<close>

theorem write_failure_error_event_counterexample:
  "sync_store
     \<lparr>tx_opens = (\<lambda>s. True), write_throws = (\<lambda>s i w. False),
      tx_outcome = (\<lambda>s. if s = ''terms'' then TxError None else TxComplete)\<rparr>
     (0, [], Running)
     (''terms'', [\<lparr>entry_key = KText [0x74, 0x31], entry_value = Structured (JArray [])\<rparr>,
                  \<lparr>entry_key = KText [0x74, 0x32], entry_value = Structured (JArray [])\<rparr>]) =
     (2,
      [TxOpened ''terms'',
       Wrote ''terms'' (Put (Structured (JArray [])) (KText [0x74, 0x31])),
       Wrote ''terms'' (Put (Structured (JArray [])) (KText [0x74, 0x32])),
       TxAwaited ''terms''],
      Thrown) \<and>
   syncEdgeIndexedDb JSON_parse_ref
     \<lparr>indexedDbPath = Inr (Some ''p''), existsSync = (\<lambda>p. True), level_module = LevelClass,
      level_opens = True, classic_level_opens = False,
      source = [([0, 2, 0, 0x74, 0x31], [0x5B, 0x5D]), ([0, 2, 0, 0x74, 0x32], [0x5B, 0x5D]),
                ([0, 3, 0, 0x6B], [0x5B, 0x5D])],
      source_throws = False, idb_opens = True,
      idb = \<lparr>tx_opens = (\<lambda>s. True), write_throws = (\<lambda>s i w. False),
             tx_outcome = (\<lambda>s. if s = ''terms'' then TxError None else TxComplete)\<rparr>\<rparr> =
     \<lparr>outcome = Resolved False,
      scanned = Some \<lparr>totalEntries = 3, parsedEntries = 3,
        entriesByStore = [(''dictionaries'', []),
           (''terms'', [\<lparr>entry_key = KText [0x74, 0x31], entry_value = Structured (JArray [])\<rparr>,
                        \<lparr>entry_key = KText [0x74, 0x32], entry_value = Structured (JArray [])\<rparr>]),
           (''kanji'', [\<lparr>entry_key = KText [0x6B], entry_value = Structured (JArray [])\<rparr>]),
           (''termMeta'', []), (''kanjiMeta'', []), (''tagMeta'', []), (''media'', [])]\<rparr>,
      synced = 2,
      events = [TxOpened ''terms'',
                Wrote ''terms'' (Put (Structured (JArray [])) (KText [0x74, 0x31])),
                Wrote ''terms'' (Put (Structured (JArray [])) (KText [0x74, 0x32])),
                TxAwaited ''terms'', IdbClosed]\<rparr>"
  by (simp add: syncEdgeIndexedDb_def not_started_def sync_store_def write_op_of_def after_await_def
      scan_eval key_eval value_eval utf8_eval)

subsection \<open>Absent keys\<close>



subsection \<open>Unmapped stores\<close>

lemma scan_entry_mapped:
  assumes "\<not> unmapped kv" and "map fst (entriesByStore st) = objectStores"
  shows "parsedEntries (scan_entry JSON_parse st kv) = parsedEntries st + 1"
proof -
  obtain parsed where p: "parseIndexedDbKey (fst kv) = Some parsed"
    using parseIndexedDbKey_fields(1)[of "fst kv"] by simp
  obtain storeName where n: "getObjectStoreName (objectStoreId parsed) = Some storeName"
    using assms(1) p by (auto simp: unmapped_def)
  have "storeName \<in> fst ` set (entriesByStore st)"
    using getObjectStoreName_objectStores[OF n] assms(2) by (metis list.set_map)
  then obtain entries where "map_of (entriesByStore st) storeName = Some entries"
    by (metis map_of_eq_None_iff not_Some_eq)
  then show ?thesis using p n by (simp add: scan_entry_def Let_def)
qed

lemma scan_entry_unmapped_parsedEntries:
  assumes "unmapped kv"
  shows "parsedEntries (scan_entry JSON_parse st kv) = parsedEntries st"
proof -
  obtain parsed where "parseIndexedDbKey (fst kv) = Some parsed"
    "getObjectStoreName (objectStoreId parsed) = None"
    using assms by (auto simp: unmapped_def split: option.splits)
  then show ?thesis
    using scan_entry_unmapped[of "fst kv" parsed JSON_parse st "snd kv"] by simp
qed

lemma foldl_scan_entry_names:
  "map fst (entriesByStore (foldl (scan_entry JSON_parse) st src)) = map fst (entriesByStore st)"
  by (induction src arbitrary: st) (simp_all add: scan_entry_names)

lemma foldl_scan_entry_parsedEntries:
  "map fst (entriesByStore st) = objectStores \<Longrightarrow>
   parsedEntries (foldl (scan_entry JSON_parse) st src) + unmapped_count src =
     parsedEntries st + length src"
proof (induction src arbitrary: st)
  case Nil
  show ?case by (simp add: unmapped_count_def)
next
  case (Cons kv src)
  have names: "map fst (entriesByStore (scan_entry JSON_parse st kv)) = objectStores"
    using Cons.prems by (simp add: scan_entry_names)
  show ?case
  proof (cases "unmapped kv")
    case True
    then show ?thesis
      using Cons.IH[OF names] scan_entry_unmapped_parsedEntries[OF True, of JSON_parse st]
      by (simp add: unmapped_count_def)
  next
    case False
    then show ?thesis
      using Cons.IH[OF names] scan_entry_mapped[OF False Cons.prems, of JSON_parse]
      by (simp add: unmapped_count_def)
  qed
qed

lemma initial_scan_names: "map fst (entriesByStore initial_scan) = objectStores"
  by (simp add: initial_scan_def comp_def)

lemma scan_source_counts:
  "parsedEntries (scan_source JSON_parse src) + unmapped_count src = length src"
  using foldl_scan_entry_parsedEntries[OF initial_scan_names, of JSON_parse src]
  by (simp add: scan_source_def initial_scan_def)

lemma scan_source_skip_unmapped:
  assumes "unmapped kv"
  shows "scan_source JSON_parse (before @ kv # after) =
    (scan_source JSON_parse (before @ after))
      \<lparr>totalEntries := totalEntries (scan_source JSON_parse (before @ after)) + 1\<rparr>"
proof -
  obtain parsed where p: "parseIndexedDbKey (fst kv) = Some parsed"
    and n: "getObjectStoreName (objectStoreId parsed) = None"
    using assms by (auto simp: unmapped_def split: option.splits)
  let ?S = "scan_source JSON_parse before"
  have 1: "scan_entry JSON_parse ?S kv = ?S\<lparr>totalEntries := length before + 1\<rparr>"
    using scan_entry_unmapped[OF p n, of JSON_parse ?S "snd kv"]
    by (simp add: scan_source_totalEntries)
  have "scan_source JSON_parse (before @ kv # after) =
      foldl (scan_entry JSON_parse) (?S\<lparr>totalEntries := length before + 1\<rparr>) after"
    by (simp add: scan_source_def 1[unfolded scan_source_def])
  also have "\<dots> = (foldl (scan_entry JSON_parse) ?S after)
      \<lparr>totalEntries := length before + 1 + length after\<rparr>"
    by (rule foldl_scan_entry_shift)
  also have "foldl (scan_entry JSON_parse) ?S after = scan_source JSON_parse (before @ after)"
    by (simp add: scan_source_def)
  finally show ?thesis by (simp add: scan_source_totalEntries)
qed

text \<open>
  C8, as amended. An entry whose store id is not in the schema map is put in no per-store
  buffer; it increments \<open>totalEntries\<close> and leaves \<open>parsedEntries\<close> as it was. The state
  has no counter of its own for such entries: after a scan their number is the
  difference of \<open>totalEntries\<close> and \<open>parsedEntries\<close>. The migration does not abort: its
  promise, its \<open>syncedCount\<close>, its writes and its per-store buffers are those of the same
  call on the source without that entry, where \<open>totalEntries\<close> is one less.
\<close>

theorem unmapped_store_safety:
  "unmapped kv \<longrightarrow>
     entriesByStore (scan_entry JSON_parse st kv) = entriesByStore st \<and>
     parsedEntries (scan_entry JSON_parse st kv) = parsedEntries st \<and>
     totalEntries (scan_entry JSON_parse st kv) = totalEntries st + 1 \<and>
     totalEntries (scan_source JSON_parse (before @ kv # after))
       - parsedEntries (scan_source JSON_parse (before @ kv # after))
       = unmapped_count (before @ kv # after) \<and>
     (source env = before @ kv # after \<longrightarrow>
        outcome (syncEdgeIndexedDb JSON_parse env)
          = outcome (syncEdgeIndexedDb JSON_parse (env\<lparr>source := before @ after\<rparr>)) \<and>
        synced (syncEdgeIndexedDb JSON_parse env)
          = synced (syncEdgeIndexedDb JSON_parse (env\<lparr>source := before @ after\<rparr>)) \<and>
        events (syncEdgeIndexedDb JSON_parse env)
          = events (syncEdgeIndexedDb JSON_parse (env\<lparr>source := before @ after\<rparr>)) \<and>
        map_option entriesByStore (scanned (syncEdgeIndexedDb JSON_parse env))
          = map_option entriesByStore (scanned (syncEdgeIndexedDb JSON_parse (env\<lparr>source := before @ after\<rparr>))) \<and>
        map_option parsedEntries (scanned (syncEdgeIndexedDb JSON_parse env))
          = map_option parsedEntries (scanned (syncEdgeIndexedDb JSON_parse (env\<lparr>source := before @ after\<rparr>))) \<and>
        map_option totalEntries (scanned (syncEdgeIndexedDb JSON_parse env))
          = map_option (\<lambda>n. n + 1)
              (map_option totalEntries (scanned (syncEdgeIndexedDb JSON_parse (env\<lparr>source := before @ after\<rparr>)))))"
proof (intro impI)
  assume u: "unmapped kv"
  obtain parsed where p: "parseIndexedDbKey (fst kv) = Some parsed"
    and n: "getObjectStoreName (objectStoreId parsed) = None"
    using u by (auto simp: unmapped_def split: option.splits)
  have e: "scan_entry JSON_parse st kv = st\<lparr>totalEntries := totalEntries st + 1\<rparr>"
    using scan_entry_unmapped[OF p n, of JSON_parse st "snd kv"] by simp
  have c: "totalEntries (scan_source JSON_parse (before @ kv # after))
       - parsedEntries (scan_source JSON_parse (before @ kv # after))
       = unmapped_count (before @ kv # after)"
    using scan_source_counts[of JSON_parse "before @ kv # after"]
      scan_source_totalEntries[of JSON_parse "before @ kv # after"]
    by linarith
  have r: "outcome (syncEdgeIndexedDb JSON_parse env)
          = outcome (syncEdgeIndexedDb JSON_parse (env\<lparr>source := before @ after\<rparr>)) \<and>
        synced (syncEdgeIndexedDb JSON_parse env)
          = synced (syncEdgeIndexedDb JSON_parse (env\<lparr>source := before @ after\<rparr>)) \<and>
        events (syncEdgeIndexedDb JSON_parse env)
          = events (syncEdgeIndexedDb JSON_parse (env\<lparr>source := before @ after\<rparr>)) \<and>
        map_option entriesByStore (scanned (syncEdgeIndexedDb JSON_parse env))
          = map_option entriesByStore (scanned (syncEdgeIndexedDb JSON_parse (env\<lparr>source := before @ after\<rparr>))) \<and>
        map_option parsedEntries (scanned (syncEdgeIndexedDb JSON_parse env))
          = map_option parsedEntries (scanned (syncEdgeIndexedDb JSON_parse (env\<lparr>source := before @ after\<rparr>))) \<and>
        map_option totalEntries (scanned (syncEdgeIndexedDb JSON_parse env))
          = map_option (\<lambda>n. n + 1)
              (map_option totalEntries (scanned (syncEdgeIndexedDb JSON_parse (env\<lparr>source := before @ after\<rparr>))))"
    if s: "source env = before @ kv # after"
    unfolding syncEdgeIndexedDb_def s
    by (simp add: scan_source_skip_unmapped[OF u] not_started_def Let_def
        split: sum.split prod.split option.split progress.split)
  show "entriesByStore (scan_entry JSON_parse st kv) = entriesByStore st \<and>
     parsedEntries (scan_entry JSON_parse st kv) = parsedEntries st \<and>
     totalEntries (scan_entry JSON_parse st kv) = totalEntries st + 1 \<and>
     totalEntries (scan_source JSON_parse (before @ kv # after))
       - parsedEntries (scan_source JSON_parse (before @ kv # after))
       = unmapped_count (before @ kv # after) \<and>
     (source env = before @ kv # after \<longrightarrow>
        outcome (syncEdgeIndexedDb JSON_parse env)
          = outcome (syncEdgeIndexedDb JSON_parse (env\<lparr>source := before @ after\<rparr>)) \<and>
        synced (syncEdgeIndexedDb JSON_parse env)
          = synced (syncEdgeIndexedDb JSON_parse (env\<lparr>source := before @ after\<rparr>)) \<and>
        events (syncEdgeIndexedDb JSON_parse env)
          = events (syncEdgeIndexedDb JSON_parse (env\<lparr>source := before @ after\<rparr>)) \<and>
        map_option entriesByStore (scanned (syncEdgeIndexedDb JSON_parse env))
          = map_option entriesByStore (scanned (syncEdgeIndexedDb JSON_parse (env\<lparr>source := before @ after\<rparr>))) \<and>
        map_option parsedEntries (scanned (syncEdgeIndexedDb JSON_parse env))
          = map_option parsedEntries (scanned (syncEdgeIndexedDb JSON_parse (env\<lparr>source := before @ after\<rparr>))) \<and>
        map_option totalEntries (scanned (syncEdgeIndexedDb JSON_parse env))
          = map_option (\<lambda>n. n + 1)
              (map_option totalEntries (scanned (syncEdgeIndexedDb JSON_parse (env\<lparr>source := before @ after\<rparr>)))))"
    using c r unfolding e by simp
qed

text \<open>The equations that evaluate a whole call on a concrete environment.\<close>

lemmas sync_eval = syncEdgeIndexedDb_def not_started_def sync_store_def after_await_def
  write_op_of_def unmapped_def unmapped_count_def

theorem unmapped_store_safety_witness:
  "unmapped ([0, 99, 0, 1], [0x31]) \<and>
   scan_entry JSON_parse_ref initial_scan ([0, 99, 0, 1], [0x31]) = initial_scan\<lparr>totalEntries := 1\<rparr> \<and>
   outcome (syncEdgeIndexedDb JSON_parse_ref
     \<lparr>indexedDbPath = Inr (Some ''p''), existsSync = (\<lambda>p. True), level_module = LevelClass,
      level_opens = True, classic_level_opens = False,
      source = [([0, 2, 0, 0x74, 0x31], [0x5B, 0x5D])] @ ([0, 99, 0, 1], [0x31]) # [],
      source_throws = False, idb_opens = True,
      idb = \<lparr>tx_opens = (\<lambda>s. True), write_throws = (\<lambda>s i w. False), tx_outcome = (\<lambda>s. TxComplete)\<rparr>\<rparr>)
     = Resolved True \<and>
   synced (syncEdgeIndexedDb JSON_parse_ref
     \<lparr>indexedDbPath = Inr (Some ''p''), existsSync = (\<lambda>p. True), level_module = LevelClass,
      level_opens = True, classic_level_opens = False,
      source = [([0, 2, 0, 0x74, 0x31], [0x5B, 0x5D])] @ ([0, 99, 0, 1], [0x31]) # [],
      source_throws = False, idb_opens = True,
      idb = \<lparr>tx_opens = (\<lambda>s. True), write_throws = (\<lambda>s i w. False), tx_outcome = (\<lambda>s. TxComplete)\<rparr>\<rparr>)
     = 1"
proof -
  let ?kv = "([0, 99, 0, 1], [0x31]) :: buffer \<times> buffer"
  let ?before = "[([0, 2, 0, 0x74, 0x31], [0x5B, 0x5D])] :: (buffer \<times> buffer) list"
  let ?tgt = "\<lparr>tx_opens = (\<lambda>s. True), write_throws = (\<lambda>s i w. False),
      tx_outcome = (\<lambda>s. TxComplete)\<rparr> :: json target"
  let ?env = "\<lparr>indexedDbPath = Inr (Some ''p''), existsSync = (\<lambda>p. True), level_module = LevelClass,
      level_opens = True, classic_level_opens = False,
      source = ?before @ ?kv # [],
      source_throws = False, idb_opens = True, idb = ?tgt\<rparr>"
  have u: "unmapped ?kv"
    by (simp add: unmapped_def key_eval utf8_eval getObjectStoreName_def mapping_def)
  have s: "source ?env = ?before @ ?kv # []" by simp
  note t = unmapped_store_safety[of ?kv JSON_parse_ref initial_scan ?before "[]" ?env, THEN mp, OF u]
  have i: "totalEntries (initial_scan :: json scan_state) = 0"
    "parsedEntries (initial_scan :: json scan_state) = 0"
    by (simp_all add: initial_scan_def)
  have e: "scan_entry JSON_parse_ref initial_scan ?kv = initial_scan\<lparr>totalEntries := 1\<rparr>"
    using t i by (intro scan_state.equality) simp_all
  note r = t[THEN conjunct2, THEN conjunct2, THEN conjunct2, THEN conjunct2, THEN mp, OF s]
  have small: "syncEdgeIndexedDb JSON_parse_ref (?env\<lparr>source := ?before @ []\<rparr>) =
      \<lparr>outcome = Resolved True,
       scanned = Some \<lparr>totalEntries = 1, parsedEntries = 1,
         entriesByStore = [(''dictionaries'', []),
            (''terms'', [\<lparr>entry_key = KText [0x74, 0x31], entry_value = Structured (JArray [])\<rparr>]),
            (''kanji'', []), (''termMeta'', []), (''kanjiMeta'', []), (''tagMeta'', []),
            (''media'', [])]\<rparr>,
       synced = 1,
       events = [TxOpened ''terms'',
                 Wrote ''terms'' (Put (Structured (JArray [])) (KText [0x74, 0x31])),
                 TxAwaited ''terms'', IdbClosed]\<rparr>"
    by (simp add: sync_eval scan_eval key_eval value_eval utf8_eval)
  show ?thesis
    using u e r unfolding small by simp
qed

text \<open>
  C8 as stated fails: no counter is kept for unmapped entries. The state of the scan
  has the counters \<open>totalEntries\<close> and \<open>parsedEntries\<close> only. An entry of store 99 alone
  changes \<open>totalEntries\<close> and nothing else, as every entry does; after two entries of
  store 2 and one of store 99 the counters are 3 and 2, and neither is the number of
  unmapped entries, which is 1.
\<close>

theorem unmapped_counter_counterexample:
  "unmapped ([0, 99, 0, 1], [0x31]) \<and>
   scan_entry JSON_parse_ref initial_scan ([0, 99, 0, 1], [0x31]) =
     \<lparr>totalEntries = 1, parsedEntries = 0,
      entriesByStore = [(''dictionaries'', []), (''terms'', []), (''kanji'', []), (''termMeta'', []),
                        (''kanjiMeta'', []), (''tagMeta'', []), (''media'', [])]\<rparr> \<and>
   scan_source JSON_parse_ref
     [([0, 2, 0, 0x74, 0x31], [0x5B, 0x5D]), ([0, 2, 0, 0x74, 0x32], [0x5B, 0x5D]), ([0, 99, 0, 1], [0x31])] =
     \<lparr>totalEntries = 3, parsedEntries = 2,
      entriesByStore = [(''dictionaries'', []),
         (''terms'', [\<lparr>entry_key = KText [0x74, 0x31], entry_value = Structured (JArray [])\<rparr>,
                      \<lparr>entry_key = KText [0x74, 0x32], entry_value = Structured (JArray [])\<rparr>]),
         (''kanji'', []), (''termMeta'', []), (''kanjiMeta'', []), (''tagMeta'', []),
         (''media'', [])]\<rparr> \<and>
   unmapped_count
     [([0, 2, 0, 0x74, 0x31], [0x5B, 0x5D]), ([0, 2, 0, 0x74, 0x32], [0x5B, 0x5D]), ([0, 99, 0, 1], [0x31])] = 1"
  by (simp add: sync_eval scan_eval key_eval value_eval utf8_eval)


end
